theory Spec2Isabelle
  imports Complex_Main "HOL-Library.Log_Nat"
begin

section \<open>Numbers\<close>

text \<open>
  The coordinates of \<^verbatim>\<open>Map.tsx\<close> are JavaScript numbers: IEEE 754 binary64 values. A
  number is modelled as NaN, one of the two infinities, or a finite value, which is a
  real. The arithmetic of the source rounds: the exact result of an operation on finite
  values is replaced by the nearest binary64 value, ties going to the even significand,
  and a result of magnitude \<open>2 ^ 1024\<close> or more after rounding becomes an infinity.

  Zero has no sign in the model. The source never divides by a coordinate and never
  inspects the sign of a zero, so both zeros behave alike in it.
\<close>

datatype number = NaN | PosInfinity | NegInfinity | Num real

text \<open>The integer nearest to \<open>y\<close>, the even one of the two when \<open>y\<close> lies half way.\<close>

definition roundTiesToEven :: "real \<Rightarrow> int" where
  "roundTiesToEven y =
     (let f = \<lfloor>y\<rfloor>; r = y - real_of_int f
      in if r < 1 / 2 then f else if r > 1 / 2 then f + 1 else if even f then f else f + 1)"

text \<open>
  The exponent of the unit in the last place at \<open>x\<close>: binary64 values near \<open>x\<close> are the
  integer multiples of \<open>2 powi quantum x\<close>. A significand has 53 bits, so the quantum is 53
  less than the number of bits of \<open>x\<close>; it is never below \<open>-1074\<close>, the quantum of the
  subnormal values. The number of bits is counted on \<open>x\<close> scaled by \<open>2 ^ 1074\<close>.
\<close>

definition quantum :: "real \<Rightarrow> int" where
  "quantum x = max (bitlen \<lfloor>\<bar>x\<bar> * 2 ^ 1074\<rfloor> - 53) 0 - 1074"

definition roundDouble :: "real \<Rightarrow> number" where
  "roundDouble x =
     (let q = quantum x;
          m = roundTiesToEven (x / 2 powi q)
      in if \<bar>real_of_int m\<bar> * 2 powi q \<ge> 2 ^ 1024
         then (if x > 0 then PosInfinity else NegInfinity)
         else Num (real_of_int m * 2 powi q))"

fun num_neg :: "number \<Rightarrow> number" where
  "num_neg NaN = NaN"
| "num_neg PosInfinity = NegInfinity"
| "num_neg NegInfinity = PosInfinity"
| "num_neg (Num a) = Num (- a)"

text \<open>\<^verbatim>\<open>a + b\<close>\<close>

fun num_add :: "number \<Rightarrow> number \<Rightarrow> number" where
  "num_add (Num a) (Num b) = roundDouble (a + b)"
| "num_add (Num a) PosInfinity = PosInfinity"
| "num_add (Num a) NegInfinity = NegInfinity"
| "num_add PosInfinity (Num b) = PosInfinity"
| "num_add PosInfinity PosInfinity = PosInfinity"
| "num_add PosInfinity NegInfinity = NaN"
| "num_add NegInfinity (Num b) = NegInfinity"
| "num_add NegInfinity NegInfinity = NegInfinity"
| "num_add NegInfinity PosInfinity = NaN"
| "num_add NaN b = NaN"
| "num_add a NaN = NaN"

text \<open>\<^verbatim>\<open>a - b\<close>, which IEEE 754 computes as the sum of \<open>a\<close> and the negated \<open>b\<close>.\<close>

definition num_sub :: "number \<Rightarrow> number \<Rightarrow> number" where
  "num_sub a b = num_add a (num_neg b)"

text \<open>\<^verbatim>\<open>Math.abs(a)\<close>\<close>

fun num_abs :: "number \<Rightarrow> number" where
  "num_abs NaN = NaN"
| "num_abs PosInfinity = PosInfinity"
| "num_abs NegInfinity = PosInfinity"
| "num_abs (Num a) = Num \<bar>a\<bar>"

text \<open>\<^verbatim>\<open>a > b\<close>: false as soon as one side is NaN.\<close>

fun num_gt :: "number \<Rightarrow> number \<Rightarrow> bool" where
  "num_gt (Num a) (Num b) = (a > b)"
| "num_gt (Num a) NegInfinity = True"
| "num_gt PosInfinity (Num b) = True"
| "num_gt PosInfinity NegInfinity = True"
| "num_gt a b = False"

text \<open>\<^verbatim>\<open>a <= b\<close>: false as soon as one side is NaN.\<close>

fun num_le :: "number \<Rightarrow> number \<Rightarrow> bool" where
  "num_le (Num a) (Num b) = (a \<le> b)"
| "num_le (Num a) PosInfinity = True"
| "num_le NegInfinity (Num b) = True"
| "num_le NegInfinity NegInfinity = True"
| "num_le NegInfinity PosInfinity = True"
| "num_le PosInfinity PosInfinity = True"
| "num_le a b = False"

text \<open>
  \<^verbatim>\<open>sum / totalPoints\<close>, where the divisor is the length of an array: a natural number,
  so the only zero divisor is \<open>+0\<close>. The quotient of finite values is rounded.
\<close>

fun num_div_count :: "number \<Rightarrow> nat \<Rightarrow> number" where
  "num_div_count NaN n = NaN"
| "num_div_count PosInfinity n = PosInfinity"
| "num_div_count NegInfinity n = NegInfinity"
| "num_div_count (Num a) n =
     (if n = 0 then (if a = 0 then NaN else if a > 0 then PosInfinity else NegInfinity)
      else roundDouble (a / real n))"



section \<open>Route coordinates\<close>

text \<open>\<^verbatim>\<open>LatLngTuple\<close>: latitude first, longitude second.\<close>

type_synonym LatLngTuple = "number \<times> number"

text \<open>
  \<^verbatim>\<open>xs[xs.length - 1]\<close>: the last element, \<^verbatim>\<open>undefined\<close> (here \<open>None\<close>) on the empty array.
\<close>

definition lastElement :: "'a list \<Rightarrow> 'a option" where
  "lastElement xs = (if xs = [] then None else Some (last xs))"

definition handleDateLineCrossing :: "LatLngTuple option \<Rightarrow> LatLngTuple \<Rightarrow> LatLngTuple" where
  "handleDateLineCrossing prev current =
     (case prev of
        None \<Rightarrow> current
      | Some p \<Rightarrow>
          (let prevLon = snd p;
               currLon = snd current;
               lonDifference = num_abs (num_sub currLon prevLon)
           in if num_gt lonDifference (Num 180)
              then (let adjustedLon = (if num_gt currLon prevLon
                                       then num_sub currLon (Num 360)
                                       else num_add currLon (Num 360))
                    in (fst current, adjustedLon))
              else current))"

text \<open>
  The loop of the route effect on coordinates that are already parsed: each point is
  adjusted against the last adjusted point and pushed. The specification calls this
  function \<^verbatim>\<open>normalize\<close>.
\<close>

definition adjustedCoordinatesOf :: "LatLngTuple list \<Rightarrow> LatLngTuple list" where
  "adjustedCoordinatesOf points =
     foldl (\<lambda>adjustedCoordinates current.
              adjustedCoordinates @
                [handleDateLineCrossing (lastElement adjustedCoordinates) current])
       [] points"

definition calculateMeanLatLon :: "LatLngTuple list \<Rightarrow> LatLngTuple" where
  "calculateMeanLatLon coordinates =
     (let totalPoints = length coordinates;
          sumLat = foldl (\<lambda>sum coord. num_add sum (fst coord)) (Num 0) coordinates;
          sumLon = foldl (\<lambda>sum coord. num_add sum (snd coord)) (Num 0) coordinates
      in (num_div_count sumLat totalPoints, num_div_count sumLon totalPoints))"

section \<open>The route effect\<close>

text \<open>
  A JavaScript string is a sequence of 16-bit code units, here natural numbers. A
  literal of ASCII characters is written through \<open>fromAscii\<close>.
\<close>

type_synonym JSString = "nat list"

definition fromAscii :: "string \<Rightarrow> JSString" where
  "fromAscii s = map of_char s"

text \<open>
  \<^verbatim>\<open>parseFloat\<close> is a built-in of the language. It skips leading white space and line
  terminators, reads the longest prefix that is a signed decimal literal (\<^verbatim>\<open>Infinity\<close>,
  or digits with an optional fraction and an optional exponent) and returns NaN when
  there is none. The value of the literal is rounded as every number is.
\<close>

definition isStrWhiteSpaceChar :: "nat \<Rightarrow> bool" where
  "isStrWhiteSpaceChar c =
     (c \<in> set [0x0009, 0x000A, 0x000B, 0x000C, 0x000D, 0x0020, 0x00A0, 0x1680,
                0x2000, 0x2001, 0x2002, 0x2003, 0x2004, 0x2005, 0x2006, 0x2007,
                0x2008, 0x2009, 0x200A, 0x2028, 0x2029, 0x202F, 0x205F, 0x3000, 0xFEFF])"

definition isDecimalDigit :: "nat \<Rightarrow> bool" where
  "isDecimalDigit c = (0x30 \<le> c \<and> c \<le> 0x39)"

definition digitValue :: "nat \<Rightarrow> nat" where
  "digitValue c = c - 0x30"

definition decimalDigitsValue :: "JSString \<Rightarrow> nat" where
  "decimalDigitsValue ds = foldl (\<lambda>acc c. 10 * acc + digitValue c) 0 ds"

text \<open>
  The exponent that starts the rest of the literal: \<^verbatim>\<open>e\<close> or \<^verbatim>\<open>E\<close>, an optional sign
  and at least one digit; anything else is no exponent part, and counts as exponent 0.
\<close>

definition exponentPart :: "JSString \<Rightarrow> int" where
  "exponentPart r =
     (case r of
        [] \<Rightarrow> 0
      | e # r1 \<Rightarrow>
          if e = 0x65 \<or> e = 0x45 then
            (case r1 of
               [] \<Rightarrow> 0
             | signChar # r2 \<Rightarrow>
                 if signChar = 0x2D
                 then - int (decimalDigitsValue (takeWhile isDecimalDigit r2))
                 else if signChar = 0x2B
                 then int (decimalDigitsValue (takeWhile isDecimalDigit r2))
                 else int (decimalDigitsValue (takeWhile isDecimalDigit r1)))
          else 0)"

definition scaleByExponent :: "real \<Rightarrow> int \<Rightarrow> real" where
  "scaleByExponent m e = (if e \<ge> 0 then m * 10 ^ nat e else m / 10 ^ nat (- e))"

definition strUnsignedDecimalLiteral :: "JSString \<Rightarrow> number option" where
  "strUnsignedDecimalLiteral s =
     (if take 8 s = fromAscii ''Infinity'' then Some PosInfinity
      else
        (let intDigits = takeWhile isDecimalDigit s;
             r1 = dropWhile isDecimalDigit s
         in if r1 \<noteq> [] \<and> hd r1 = 0x2E then
              (let fracDigits = takeWhile isDecimalDigit (tl r1);
                   r2 = dropWhile isDecimalDigit (tl r1)
               in if intDigits = [] \<and> fracDigits = [] then None
                  else Some (roundDouble (scaleByExponent
                          (real (decimalDigitsValue intDigits) +
                           real (decimalDigitsValue fracDigits) / 10 ^ length fracDigits)
                          (exponentPart r2))))
            else if intDigits = [] then None
            else Some (roundDouble (scaleByExponent (real (decimalDigitsValue intDigits))
                        (exponentPart r1)))))"

definition parseFloat :: "JSString \<Rightarrow> number" where
  "parseFloat inputString =
     (let trimmedString = dropWhile isStrWhiteSpaceChar inputString
      in case trimmedString of
           [] \<Rightarrow> NaN
         | c # r \<Rightarrow>
             if c = 0x2D then
               (case strUnsignedDecimalLiteral r of None \<Rightarrow> NaN | Some v \<Rightarrow> num_neg v)
             else if c = 0x2B then
               (case strUnsignedDecimalLiteral r of None \<Rightarrow> NaN | Some v \<Rightarrow> v)
             else
               (case strUnsignedDecimalLiteral trimmedString of None \<Rightarrow> NaN | Some v \<Rightarrow> v))"

text \<open>
  A point of \<^verbatim>\<open>globalRouteData\<close>. Only the two fields that the effect reads are kept.
\<close>

record RoutePoint =
  latitude :: JSString
  longitude :: JSString

text \<open>
  The state of the \<^verbatim>\<open>Map\<close> component that the two effects read and write. The two hazard
  collections arrive from the cyclone layers; each is \<open>None\<close> until its layer has loaded.
\<close>

type_synonym Polygon = "(number \<times> number) list list"

type_synonym LineString = "(number \<times> number) list"

record 'c Geometry =
  coordinates :: "'c option"

record 'c Feature =
  geometry :: "'c Geometry option"

record 'c FeatureCollection =
  features :: "'c Feature option list option"

record 'c HazardData =
  original :: "'c FeatureCollection option"
  minus360 :: "'c FeatureCollection option"
  plus360 :: "'c FeatureCollection option"

record MapState =
  adjustedCoordinates :: "LatLngTuple list"
  center :: "LatLngTuple option"
  intersectionPoint :: "LatLngTuple option"
  forecastConeData :: "Polygon HazardData option"
  observedTrackData :: "LineString HazardData option"

text \<open>
  The body of \<^verbatim>\<open>globalRouteData.forEach\<close>, on the pair of local arrays
  \<^verbatim>\<open>rawCoordinates\<close> and \<^verbatim>\<open>adjustedCoordinates\<close>. The parser is a parameter, so that
  what is proved of the effect holds of every parser.
\<close>

definition forEachPoint ::
  "(JSString \<Rightarrow> number) \<Rightarrow> LatLngTuple list \<times> LatLngTuple list \<Rightarrow> RoutePoint \<Rightarrow>
   LatLngTuple list \<times> LatLngTuple list" where
  "forEachPoint parse arrays point =
     (let rawCoords = fst arrays;
          adjusted = snd arrays;
          lat = parse (latitude point);
          lon = parse (longitude point);
          adjustedCoords = handleDateLineCrossing (lastElement adjusted) (lat, lon)
      in (rawCoords @ [(lat, lon)], adjusted @ [adjustedCoords]))"

text \<open>
  The route effect: nothing happens when \<^verbatim>\<open>globalRouteData\<close> is missing or empty;
  otherwise the adjusted coordinates and their mean are stored.
\<close>

definition routeEffect ::
  "(JSString \<Rightarrow> number) \<Rightarrow> RoutePoint list option \<Rightarrow> MapState \<Rightarrow> MapState" where
  "routeEffect parse globalRouteData st =
     (case globalRouteData of
        None \<Rightarrow> st
      | Some routePoints \<Rightarrow>
          if length routePoints > 0 then
            (let adjusted = snd (foldl (forEachPoint parse) ([], []) routePoints)
             in st\<lparr>adjustedCoordinates := adjusted,
                   center := Some (calculateMeanLatLon adjusted)\<rparr>)
          else st)"

text \<open>
  \<^verbatim>\<open>SetViewOnRouteData\<close> moves the map to the centre it is given at zoom 3, unless the
  centre is missing or one of its coordinates is NaN: then it only logs a warning.
\<close>

datatype viewAction = SetView LatLngTuple nat | WarnInvalidCenter

definition isNaN :: "number \<Rightarrow> bool" where
  "isNaN x = (x = NaN)"

definition setViewOnRouteData :: "LatLngTuple option \<Rightarrow> viewAction" where
  "setViewOnRouteData viewCenter =
     (case viewCenter of
        None \<Rightarrow> WarnInvalidCenter
      | Some c \<Rightarrow>
          if \<not> isNaN (fst c) \<and> \<not> isNaN (snd c) then SetView c 3 else WarnInvalidCenter)"

text \<open>
  What \<^verbatim>\<open>Map\<close> renders for the view: with an intersection point the view is set on it;
  without one it is set on the centre when there is one; else nothing is rendered.
\<close>

definition renderedView :: "MapState \<Rightarrow> viewAction option" where
  "renderedView st =
     (case intersectionPoint st of
        Some p \<Rightarrow> Some (setViewOnRouteData (Some p))
      | None \<Rightarrow>
          (case center st of
             Some c \<Rightarrow> Some (setViewOnRouteData (Some c))
           | None \<Rightarrow> None))"

section \<open>The intersection effect\<close>














section \<open>Reference notions\<close>





section \<open>The polygon check, from the specification\<close>






section \<open>Example data\<close>


definition initialState :: MapState where
  "initialState =
     \<lparr>adjustedCoordinates = [], center = None, intersectionPoint = None,
       forecastConeData = None, observedTrackData = None\<rparr>"

text \<open>
  A route of four points, every longitude within \<open>[-180, 180]\<close>, that winds eastwards
  across the antimeridian and then returns to \<open>-180\<close>.
\<close>

definition windingRoute :: "LatLngTuple list" where
  "windingRoute = [(Num 0, Num 170), (Num 0, Num (-170)), (Num 0, Num 9), (Num 0, Num (-180))]"








text \<open>
  A route whose longitudes are the binary64 values nearest to 121.8, -100.7, 73.1 and
  -106.9.
\<close>

definition decimalRoute :: "LatLngTuple list" where
  "decimalRoute =
     [(Num 0, Num (8570913040839475 / 70368744177664)),
      (Num 0, Num (- (7086132538690765 / 70368744177664))),
      (Num 0, Num (2571977599693619 / 35184372088832)),
      (Num 0, Num (- (3761209376296141 / 35184372088832)))]"

text \<open>
  A route of two points at longitudes near \<open>2\<^sup>6\<^sup>1\<close>, 512 degrees apart. Up there binary64
  values are 256 or 512 apart.
\<close>

definition farRoute :: "LatLngTuple list" where
  "farRoute = [(Num 0, Num (2 ^ 61 - 512)), (Num 0, Num (2 ^ 61))]"

section \<open>Rounding\<close>

lemma roundTiesToEven_error: "\<bar>real_of_int (roundTiesToEven y) - y\<bar> \<le> 1 / 2"
proof -
  have "real_of_int \<lfloor>y\<rfloor> \<le> y" "y < real_of_int \<lfloor>y\<rfloor> + 1" by linarith+
  then show ?thesis
    unfolding roundTiesToEven_def Let_def by (auto simp: abs_le_iff)
qed

lemma roundTiesToEven_of_int: "roundTiesToEven (real_of_int k) = k"
  by (simp add: roundTiesToEven_def)

lemma roundTiesToEven_near:
  assumes "\<bar>y - real_of_int m\<bar> < 1 / 2"
  shows "roundTiesToEven y = m"
proof -
  from assms have b: "real_of_int m - 1 / 2 < y" "y < real_of_int m + 1 / 2"
    by linarith+
  then have "\<lfloor>y\<rfloor> = m \<or> \<lfloor>y\<rfloor> = m - 1" by linarith
  then show ?thesis
  proof
    assume f: "\<lfloor>y\<rfloor> = m"
    then show ?thesis using b unfolding roundTiesToEven_def Let_def by simp
  next
    assume f: "\<lfloor>y\<rfloor> = m - 1"
    then show ?thesis using b unfolding roundTiesToEven_def Let_def by simp
  qed
qed

lemma quantum_ge_min: "- 1074 \<le> quantum x"
  by (simp add: quantum_def)

lemma scale_powi: "- int n \<le> w \<Longrightarrow> (2::real) powi w * 2 ^ n = 2 ^ nat (w + int n)"
proof -
  assume w: "- int n \<le> w"
  have "(2::real) powi w * 2 powi (int n) = 2 powi (w + int n)"
    by (simp add: power_int_add)
  moreover have "(2::real) powi (w + int n) = 2 ^ nat (w + int n)"
    using w by (simp add: power_int_def)
  ultimately show ?thesis by simp
qed

lemma bitlen_scaled_le:
  assumes "\<bar>x :: real\<bar> < 2 powi (q + 53)" and "- int n \<le> q"
  shows "max (bitlen \<lfloor>\<bar>x\<bar> * 2 ^ n\<rfloor> - 53) 0 - int n \<le> q"
proof -
  have "\<bar>x\<bar> * 2 ^ n < 2 powi (q + 53) * 2 ^ n"
    using assms(1) by simp
  also have "\<dots> = 2 ^ nat (q + 53 + int n)"
    using assms(2) by (intro scale_powi) simp
  finally have "\<bar>x\<bar> * 2 ^ n < real_of_int (2 ^ nat (q + 53 + int n))"
    by simp
  then have "\<lfloor>\<bar>x\<bar> * 2 ^ n\<rfloor> < 2 ^ nat (q + 53 + int n)"
    by (simp only: floor_less_iff)
  then have "bitlen \<lfloor>\<bar>x\<bar> * 2 ^ n\<rfloor> \<le> q + 53 + int n"
    using assms(2) by (simp add: bitlen_le_iff_power)
  then show ?thesis
    using assms(2) by simp
qed

lemma bitlen_scaled_ge:
  assumes "2 powi (q + 52) \<le> \<bar>x :: real\<bar>" and "- int n \<le> q"
  shows "q \<le> max (bitlen \<lfloor>\<bar>x\<bar> * 2 ^ n\<rfloor> - 53) 0 - int n"
proof -
  have "2 powi (q + 52) * 2 ^ n \<le> \<bar>x\<bar> * 2 ^ n"
    using assms(1) by simp
  moreover have "(2::real) powi (q + 52) * 2 ^ n = 2 ^ nat (q + 52 + int n)"
    using assms(2) by (intro scale_powi) simp
  ultimately have "real_of_int (2 ^ nat (q + 52 + int n)) \<le> \<bar>x\<bar> * 2 ^ n"
    by simp
  then have "2 ^ nat (q + 52 + int n) \<le> \<lfloor>\<bar>x\<bar> * 2 ^ n\<rfloor>"
    by (simp only: le_floor_iff)
  moreover have "nat (q + 53 + int n) - 1 = nat (q + 52 + int n)"
    using assms(2) by simp
  ultimately have "q + 53 + int n \<le> bitlen \<lfloor>\<bar>x\<bar> * 2 ^ n\<rfloor>"
    by (simp add: bitlen_ge_iff_power)
  then show ?thesis by simp
qed

lemma quantum_le:
  assumes "\<bar>x\<bar> < 2 powi (q + 53)" and "- 1074 \<le> q"
  shows "quantum x \<le> q"
  unfolding quantum_def using bitlen_scaled_le[of x q 1074] assms by simp

lemma quantum_ge:
  assumes "2 powi (q + 52) \<le> \<bar>x\<bar>"
  shows "q \<le> quantum x"
proof (cases "- 1074 \<le> q")
  case False
  then show ?thesis using quantum_ge_min[of x] by simp
next
  case True
  then show ?thesis
    unfolding quantum_def using bitlen_scaled_ge[of q x 1074] assms by simp
qed

lemma quantum_eq:
  "2 powi (q + 52) \<le> \<bar>x\<bar> \<Longrightarrow> \<bar>x\<bar> < 2 powi (q + 53) \<Longrightarrow> - 1074 \<le> q \<Longrightarrow> quantum x = q"
  by (intro antisym quantum_le quantum_ge)

lemma roundDouble_error:
  assumes "\<bar>x\<bar> < 2 powi (q + 53)" and "- 1074 \<le> q" and "q \<le> 970"
  shows "\<exists>r. roundDouble x = Num r \<and> \<bar>r - x\<bar> \<le> 2 powi (q - 1)"
proof -
  define Q where "Q = quantum x"
  define m where "m = roundTiesToEven (x / 2 powi Q)"
  have Q: "Q \<le> q" unfolding Q_def using assms(1,2) by (rule quantum_le)
  have pos: "(0::real) < 2 powi Q" by simp
  have "\<bar>real_of_int m - x / 2 powi Q\<bar> \<le> 1 / 2"
    unfolding m_def by (rule roundTiesToEven_error)
  then have "\<bar>real_of_int m - x / 2 powi Q\<bar> * 2 powi Q \<le> 1 / 2 * 2 powi Q"
    using pos by (intro mult_right_mono) auto
  moreover have "\<bar>real_of_int m - x / 2 powi Q\<bar> * 2 powi Q = \<bar>real_of_int m * 2 powi Q - x\<bar>"
  proof -
    have "\<bar>real_of_int m - x / 2 powi Q\<bar> * 2 powi Q = \<bar>(real_of_int m - x / 2 powi Q) * 2 powi Q\<bar>"
      using pos by (simp add: abs_mult)
    also have "(real_of_int m - x / 2 powi Q) * 2 powi Q = real_of_int m * 2 powi Q - x"
      using pos by (simp add: field_simps)
    finally show ?thesis .
  qed
  moreover have "1 / 2 * (2::real) powi Q = 2 powi (Q - 1)"
    by (simp add: power_int_diff)
  ultimately have err: "\<bar>real_of_int m * 2 powi Q - x\<bar> \<le> 2 powi (Q - 1)"
    by simp
  have mono: "(2::real) powi (Q - 1) \<le> 2 powi (q - 1)"
    using Q by (intro power_int_increasing) auto
  have "\<bar>real_of_int m * 2 powi Q\<bar> \<le> \<bar>x\<bar> + 2 powi (q - 1)"
    using err mono by linarith
  also have "\<dots> < 2 powi (q + 53) + 2 powi (q - 1)"
    using assms(1) by simp
  also have "\<dots> \<le> 2 powi (q + 53) + 2 powi (q + 53)"
    by (intro add_left_mono power_int_increasing) auto
  also have "\<dots> = 2 powi (q + 54)"
    by (simp add: power_int_add)
  also have "\<dots> \<le> 2 powi 1024"
    using assms(3) by (intro power_int_increasing) auto
  also have "\<dots> = 2 ^ 1024" by (simp add: power_int_def)
  finally have "\<not> (\<bar>real_of_int m\<bar> * 2 powi Q \<ge> 2 ^ 1024)"
    using pos by (simp add: abs_mult)
  then have "roundDouble x = Num (real_of_int m * 2 powi Q)"
    unfolding roundDouble_def Let_def Q_def[symmetric] m_def[symmetric] by simp
  with err mono show ?thesis by force
qed

lemma roundDouble_near:
  assumes "\<bar>x\<bar> \<le> 2 ^ 21"
  shows "\<exists>r. roundDouble x = Num r \<and> \<bar>r - x\<bar> \<le> 1 / 2 ^ 32"
proof -
  have "\<bar>x\<bar> < 2 powi (- 31 + 53)"
    using assms by (simp add: power_int_def)
  from roundDouble_error[OF this]
  obtain r where "roundDouble x = Num r" "\<bar>r - x\<bar> \<le> 2 powi (- 31 - 1)" by auto
  then show ?thesis by (auto simp: power_int_def field_simps)
qed

lemma roundDouble_exact:
  assumes x: "x = real_of_int k * 2 powi j"
    and k: "\<bar>k\<bar> < 2 ^ 53" and j: "- 1074 \<le> j" "j \<le> 971"
  shows "roundDouble x = Num x"
proof -
  define Q where "Q = quantum x"
  have "\<bar>x\<bar> = real_of_int \<bar>k\<bar> * 2 powi j"
    by (simp add: x abs_mult)
  also have "\<dots> < 2 ^ 53 * 2 powi j"
  proof -
    have "real_of_int \<bar>k\<bar> < real_of_int (2 ^ 53)" using k by (simp only: of_int_less_iff)
    then show ?thesis by (intro mult_strict_right_mono) auto
  qed
  also have "\<dots> = 2 powi (j + 53)"
  proof -
    have "(2::real) powi (j + 53) = 2 powi j * 2 powi 53" by (simp add: power_int_add)
    also have "(2::real) powi 53 = 2 ^ 53" by (simp add: power_int_def)
    finally show ?thesis by simp
  qed
  finally have lt: "\<bar>x\<bar> < 2 powi (j + 53)" .
  then have Q: "Q \<le> j" unfolding Q_def using j(1) by (rule quantum_le)
  have "x / 2 powi Q = real_of_int k * 2 powi (j - Q)"
    by (simp add: x power_int_diff)
  also have "(2::real) powi (j - Q) = 2 ^ nat (j - Q)"
    using Q by (simp add: power_int_def)
  finally have "x / 2 powi Q = real_of_int (k * 2 ^ nat (j - Q))"
    by simp
  then have m: "real_of_int (roundTiesToEven (x / 2 powi Q)) * 2 powi Q = x"
    by (simp only: roundTiesToEven_of_int) (simp add: field_simps)
  have "\<bar>x\<bar> < 2 ^ 1024"
  proof -
    have "(2::real) powi (j + 53) \<le> 2 powi 1024"
      using j(2) by (intro power_int_increasing) auto
    with lt show ?thesis by (simp add: power_int_def)
  qed
  then have "\<not> (\<bar>real_of_int (roundTiesToEven (x / 2 powi Q))\<bar> * 2 powi Q \<ge> 2 ^ 1024)"
    using m by (metis abs_mult abs_of_pos not_le zero_less_numeral zero_less_power_int)
  then show ?thesis
    unfolding roundDouble_def Let_def Q_def[symmetric] using m by simp
qed

lemma roundDouble_integer:
  assumes "x \<in> \<int>" and "\<bar>x\<bar> < 2 ^ 53"
  shows "roundDouble x = Num x"
proof -
  from assms(1) obtain k where k: "x = real_of_int k" by (auto elim: Ints_cases)
  with assms(2) have "real_of_int \<bar>k\<bar> < real_of_int (2 ^ 53)" by simp
  then have "\<bar>k\<bar> < 2 ^ 53" by (simp only: of_int_less_iff)
  then show ?thesis
    by (intro roundDouble_exact[where k = k and j = 0]) (simp_all add: k)
qed



text \<open>Rounding a given value: the quantum and the nearest multiple are supplied.\<close>

lemma roundDouble_eval:
  assumes "2 powi (q + 52) \<le> \<bar>x\<bar>" and "\<bar>x\<bar> < 2 powi (q + 53)" and "- 1074 \<le> q"
    and "\<bar>x / 2 powi q - real_of_int m\<bar> < 1 / 2"
  shows "roundDouble x =
           (if \<bar>real_of_int m\<bar> * 2 powi q \<ge> 2 ^ 1024
            then (if x > 0 then PosInfinity else NegInfinity)
            else Num (real_of_int m * 2 powi q))"
proof -
  have q: "quantum x = q" using assms(1-3) by (rule quantum_eq)
  have m: "roundTiesToEven (x / 2 powi q) = m" using assms(4) by (rule roundTiesToEven_near)
  show ?thesis unfolding roundDouble_def Let_def q m ..
qed

lemma roundDouble_eval_scaled:
  assumes "2 ^ 52 \<le> \<bar>x\<bar> * 2 ^ n" and "\<bar>x\<bar> * 2 ^ n < 2 ^ 53" and "n \<le> 1074"
    and "roundTiesToEven (x * 2 ^ n) = m"
  shows "roundDouble x = Num (real_of_int m / 2 ^ n)"
proof -
  have p: "(2::real) powi (- int n) = 1 / 2 ^ n"
    by (simp add: power_int_minus field_simps)
  have "(2::real) powi (- int n + 52) = 2 powi (- int n) * 2 powi 52"
    by (rule power_int_add) simp
  moreover have "(2::real) powi 52 = 2 ^ 52" by (simp add: power_int_def)
  ultimately have p52: "(2::real) powi (- int n + 52) = 2 ^ 52 / 2 ^ n"
    unfolding p by simp
  have "(2::real) powi (- int n + 53) = 2 powi (- int n) * 2 powi 53"
    by (rule power_int_add) simp
  moreover have "(2::real) powi 53 = 2 ^ 53" by (simp add: power_int_def)
  ultimately have p53: "(2::real) powi (- int n + 53) = 2 ^ 53 / 2 ^ n"
    unfolding p by simp
  have 1: "2 powi (- int n + 52) \<le> \<bar>x\<bar>"
    unfolding p52 using assms(1) by (simp add: field_simps)
  have 2: "\<bar>x\<bar> < 2 powi (- int n + 53)"
    unfolding p53 using assms(2) by (simp add: field_simps)
  have 3: "- 1074 \<le> - int n" using assms(3) by simp
  have q: "quantum x = - int n" using 1 2 3 by (rule quantum_eq)
  have y: "x / 2 powi (- int n) = x * 2 ^ n" unfolding p by simp
  have "\<bar>real_of_int m - x * 2 ^ n\<bar> \<le> 1 / 2"
    using roundTiesToEven_error[of "x * 2 ^ n"] unfolding assms(4) .
  then have "\<bar>real_of_int m\<bar> \<le> \<bar>x * 2 ^ n\<bar> + 1 / 2"
    by linarith
  also have "\<bar>x * 2 ^ n\<bar> = \<bar>x\<bar> * 2 ^ n" by (simp add: abs_mult)
  also have "\<bar>x\<bar> * 2 ^ n + 1 / 2 < 2 ^ 53 + 1 / 2" using assms(2) by simp
  finally have m: "\<bar>real_of_int m\<bar> < 2 ^ 54" by simp
  have "\<bar>real_of_int m\<bar> * 2 powi (- int n) \<le> \<bar>real_of_int m\<bar> * 1"
    unfolding p by (intro mult_left_mono) (simp_all add: field_simps)
  also have "\<dots> < 2 ^ 54" using m by simp
  also have "(2::real) ^ 54 \<le> 2 ^ 1024" by (intro power_increasing) auto
  finally have "\<not> (\<bar>real_of_int m\<bar> * 2 powi (- int n) \<ge> 2 ^ 1024)" by simp
  then show ?thesis
    unfolding roundDouble_def Let_def q y assms(4) by (simp only: p if_False) simp
qed

lemma roundDouble_eval_fraction:
  assumes "2 ^ 52 \<le> \<bar>x\<bar> * 2 ^ n" and "\<bar>x\<bar> * 2 ^ n < 2 ^ 53" and "n \<le> 1074"
    and "\<bar>x * 2 ^ n - real_of_int m\<bar> < 1 / 2"
  shows "roundDouble x = Num (real_of_int m / 2 ^ n)"
  using assms(1-3) roundTiesToEven_near[OF assms(4)] by (rule roundDouble_eval_scaled)

lemma roundTiesToEven_tie:
  assumes "\<bar>y - real_of_int m\<bar> = 1 / 2" and "even m"
  shows "roundTiesToEven y = m"
proof -
  from assms(1) consider "y = real_of_int m + 1 / 2" | "y = real_of_int m - 1 / 2"
    by (auto simp: abs_if split: if_splits)
  then show ?thesis
  proof cases
    case 1
    then have "\<lfloor>y\<rfloor> = m" by linarith
    then show ?thesis using 1 assms(2) unfolding roundTiesToEven_def Let_def by simp
  next
    case 2
    then have "\<lfloor>y\<rfloor> = m - 1" by linarith
    then show ?thesis using 2 assms(2) unfolding roundTiesToEven_def Let_def by simp
  qed
qed

lemma roundDouble_eval_tie:
  assumes "2 ^ 52 \<le> \<bar>x\<bar> * 2 ^ n" and "\<bar>x\<bar> * 2 ^ n < 2 ^ 53" and "n \<le> 1074"
    and "\<bar>x * 2 ^ n - real_of_int m\<bar> = 1 / 2" and "even m"
  shows "roundDouble x = Num (real_of_int m / 2 ^ n)"
  using assms(1-3) roundTiesToEven_tie[OF assms(4,5)] by (rule roundDouble_eval_scaled)

lemma roundDouble_overflow:
  assumes "2 ^ 1024 \<le> x"
  shows "roundDouble x = PosInfinity"
proof -
  define Q where "Q = quantum x"
  define m where "m = roundTiesToEven (x / 2 powi Q)"
  have x: "0 < x" using assms by (smt (verit) zero_less_power)
  have "(2::real) powi (972 + 52) = 2 ^ 1024" by (simp add: power_int_def)
  then have "2 powi (972 + 52) \<le> \<bar>x\<bar>" using assms x by simp
  then have Q: "972 \<le> Q" unfolding Q_def by (rule quantum_ge)
  have pos: "(0::real) < 2 powi Q" by simp
  have "\<bar>real_of_int m - x / 2 powi Q\<bar> \<le> 1 / 2"
    unfolding m_def by (rule roundTiesToEven_error)
  then have lo: "x / 2 powi Q - 1 / 2 \<le> real_of_int m" by linarith
  show ?thesis
  proof (cases "Q \<le> 1024")
    case True
    have "(2::real) ^ 1024 / 2 powi Q = 2 powi (1024 - Q)"
      by (simp add: power_int_diff)
    also have "\<dots> = real_of_int (2 ^ nat (1024 - Q))"
      using True by (simp add: power_int_def)
    finally have e: "(2::real) ^ 1024 / 2 powi Q = real_of_int (2 ^ nat (1024 - Q))" .
    have "2 ^ 1024 / 2 powi Q \<le> x / 2 powi Q"
      using assms pos by (simp add: divide_right_mono)
    with lo e have "real_of_int (2 ^ nat (1024 - Q)) - 1 / 2 \<le> real_of_int m" by linarith
    then have "real_of_int (2 ^ nat (1024 - Q)) - 1 < real_of_int m" by linarith
    then have "real_of_int (2 ^ nat (1024 - Q) - 1) < real_of_int m" by simp
    then have "2 ^ nat (1024 - Q) - 1 < m" by (simp only: of_int_less_iff)
    then have "2 ^ nat (1024 - Q) \<le> m" by simp
    then have "real_of_int (2 ^ nat (1024 - Q)) \<le> real_of_int m" by (simp only: of_int_le_iff)
    with e have "2 ^ 1024 / 2 powi Q \<le> real_of_int m" by simp
    then have "2 ^ 1024 \<le> real_of_int m * 2 powi Q"
      using pos by (simp add: field_simps)
    moreover have "0 \<le> real_of_int m"
      using \<open>2 ^ 1024 / 2 powi Q \<le> real_of_int m\<close> pos
      by (smt (verit) divide_nonneg_pos zero_le_power)
    ultimately have "\<bar>real_of_int m\<bar> * 2 powi Q \<ge> 2 ^ 1024" by simp
    then show ?thesis
      unfolding roundDouble_def Let_def Q_def[symmetric] m_def[symmetric] using x by simp
  next
    case False
    then have big: "(2::real) ^ 1024 \<le> 2 powi Q"
    proof -
      have "(2::real) powi 1024 \<le> 2 powi Q" using False by (intro power_int_increasing) auto
      then show ?thesis by (simp add: power_int_def)
    qed
    have "x \<noteq> 0" using x by simp
    have "bitlen \<lfloor>\<bar>x\<bar> * 2 ^ 1074\<rfloor> - 53 > 0"
      using False unfolding Q_def quantum_def by simp
    then have "Q = bitlen \<lfloor>\<bar>x\<bar> * 2 ^ 1074\<rfloor> - 53 - 1074"
      unfolding Q_def quantum_def by simp
    then have bl: "bitlen \<lfloor>\<bar>x\<bar> * 2 ^ 1074\<rfloor> = Q + 53 + 1074" by simp
    have fl: "0 < \<lfloor>\<bar>x\<bar> * 2 ^ 1074\<rfloor>"
      using bl False by (smt (verit) bitlen_eq_zero_iff)
    from bitlen_bounds[OF fl]
    have "2 ^ nat (Q + 53 + 1074 - 1) \<le> \<lfloor>\<bar>x\<bar> * 2 ^ 1074\<rfloor>"
      unfolding bl by simp
    then have "real_of_int (2 ^ nat (Q + 52 + 1074)) \<le> \<bar>x\<bar> * 2 ^ 1074"
      by (simp add: le_floor_iff)
    moreover have "(2::real) powi (Q + 52) * 2 ^ 1074 = 2 ^ nat (Q + 52 + int 1074)"
      using False by (intro scale_powi) simp
    ultimately have "2 powi (Q + 52) * 2 ^ 1074 \<le> \<bar>x\<bar> * 2 ^ 1074" by simp
    then have "2 powi (Q + 52) \<le> x" using x by simp
    then have "2 powi 52 * 2 powi Q \<le> x" by (simp add: power_int_add mult.commute)
    then have "2 powi 52 \<le> x / 2 powi Q" using pos by (simp add: field_simps)
    with lo have "2 powi 52 - 1 / 2 \<le> real_of_int m" by linarith
    moreover have "(2::real) powi 52 = 2 ^ 52" by (simp add: power_int_def)
    ultimately have m1: "1 \<le> real_of_int m" by simp
    then have "1 * 2 powi Q \<le> real_of_int m * 2 powi Q"
      using pos by (intro mult_right_mono) auto
    then have "2 powi Q \<le> real_of_int m * 2 powi Q" by simp
    with big have "2 ^ 1024 \<le> real_of_int m * 2 powi Q" by (rule order_trans)
    moreover have "\<bar>real_of_int m\<bar> = real_of_int m" using m1 by simp
    ultimately have "\<bar>real_of_int m\<bar> * 2 powi Q \<ge> 2 ^ 1024" by (simp only:)
    then show ?thesis
      unfolding roundDouble_def Let_def Q_def[symmetric] m_def[symmetric] using x by simp
  qed
qed

section \<open>The adjusted coordinates, point by point\<close>

lemma adjusted_Nil: "adjustedCoordinatesOf [] = []"
  by (simp add: adjustedCoordinatesOf_def)

lemma adjusted_snoc:
  "adjustedCoordinatesOf (ps @ [c]) =
   adjustedCoordinatesOf ps @ [handleDateLineCrossing (lastElement (adjustedCoordinatesOf ps)) c]"
  by (simp add: adjustedCoordinatesOf_def)

lemma length_adjusted: "length (adjustedCoordinatesOf ps) = length ps"
  by (induction ps rule: rev_induct) (simp_all add: adjusted_Nil adjusted_snoc)

lemma adjusted_nth_prefix:
  "i < length ps \<Longrightarrow> adjustedCoordinatesOf (ps @ [c]) ! i = adjustedCoordinatesOf ps ! i"
  by (simp add: adjusted_snoc nth_append length_adjusted)

lemma lastElement_adjusted:
  assumes "ps \<noteq> []"
  shows "lastElement (adjustedCoordinatesOf ps) = Some (adjustedCoordinatesOf ps ! (length ps - 1))"
proof -
  have "adjustedCoordinatesOf ps \<noteq> []"
    using assms length_adjusted[of ps] by auto
  then show ?thesis
    using length_adjusted[of ps] by (simp add: lastElement_def last_conv_nth)
qed

lemma adjusted_nth_0: "0 < length ps \<Longrightarrow> adjustedCoordinatesOf ps ! 0 = ps ! 0"
proof (induction ps rule: rev_induct)
  case Nil
  then show ?case by simp
next
  case (snoc c ps)
  show ?case
  proof (cases "ps = []")
    case True
    then show ?thesis
      by (simp add: adjustedCoordinatesOf_def lastElement_def handleDateLineCrossing_def)
  next
    case False
    then show ?thesis using snoc by (simp add: adjusted_nth_prefix nth_append)
  qed
qed

lemma adjusted_nth_Suc:
  "Suc i < length ps \<Longrightarrow>
   adjustedCoordinatesOf ps ! Suc i =
   handleDateLineCrossing (Some (adjustedCoordinatesOf ps ! i)) (ps ! Suc i)"
proof (induction ps rule: rev_induct)
  case Nil
  then show ?case by simp
next
  case (snoc c ps)
  show ?case
  proof (cases "Suc i < length ps")
    case True
    then show ?thesis using snoc.IH by (simp add: adjusted_nth_prefix nth_append)
  next
    case False
    with snoc.prems have i: "Suc i = length ps" by simp
    then have ne: "ps \<noteq> []" by auto
    have li: "length ps - 1 = i" using i by simp
    have "adjustedCoordinatesOf (ps @ [c]) ! Suc i =
          handleDateLineCrossing (lastElement (adjustedCoordinatesOf ps)) c"
      using i by (simp add: adjusted_snoc nth_append length_adjusted)
    moreover have "lastElement (adjustedCoordinatesOf ps) =
                   Some (adjustedCoordinatesOf (ps @ [c]) ! i)"
      using i lastElement_adjusted[OF ne] unfolding li by (simp add: adjusted_nth_prefix)
    moreover have "(ps @ [c]) ! Suc i = c" using i by (simp add: nth_append)
    ultimately show ?thesis by simp
  qed
qed

lemma adjusted_nth_step:
  assumes "i < length ps"
  shows "\<exists>prev. adjustedCoordinatesOf ps ! i = handleDateLineCrossing prev (ps ! i)"
proof (cases i)
  case 0
  then have "adjustedCoordinatesOf ps ! i = handleDateLineCrossing None (ps ! i)"
    using assms by (simp add: adjusted_nth_0 handleDateLineCrossing_def)
  then show ?thesis ..
next
  case (Suc j)
  then show ?thesis using assms adjusted_nth_Suc[of j ps] by blast
qed

subsection \<open>One step\<close>

lemma step_no_change:
  "\<not> num_gt (num_abs (num_sub (snd c) (snd p))) (Num 180) \<Longrightarrow>
   handleDateLineCrossing (Some p) c = c"
  by (simp add: handleDateLineCrossing_def)

lemma step_fst: "fst (handleDateLineCrossing prev c) = fst c"
  by (simp add: handleDateLineCrossing_def Let_def split: option.splits)

lemma step_snd:
  "snd (handleDateLineCrossing prev c) = snd c \<or>
   snd (handleDateLineCrossing prev c) = num_sub (snd c) (Num 360) \<or>
   snd (handleDateLineCrossing prev c) = num_add (snd c) (Num 360)"
  by (simp add: handleDateLineCrossing_def Let_def split: option.splits)

lemma step_snd_NaN: "snd c = NaN \<Longrightarrow> snd (handleDateLineCrossing prev c) = NaN"
  by (simp add: handleDateLineCrossing_def num_sub_def Let_def split: option.splits)

lemma num_le_not_gt: "num_le a b \<Longrightarrow> \<not> num_gt a b"
  by (cases a; cases b) auto

text \<open>A sequence without a jump of more than 180 degrees is left as it is.\<close>

lemma no_jump_fixed:
  assumes "\<forall>i. Suc i < length ps \<longrightarrow>
             \<not> num_gt (num_abs (num_sub (snd (ps ! Suc i)) (snd (ps ! i)))) (Num 180)"
  shows "adjustedCoordinatesOf ps = ps"
proof (rule nth_equalityI)
  show "length (adjustedCoordinatesOf ps) = length ps" by (rule length_adjusted)
next
  fix i assume "i < length (adjustedCoordinatesOf ps)"
  then have "i < length ps" by (simp add: length_adjusted)
  then show "adjustedCoordinatesOf ps ! i = ps ! i"
  proof (induction i)
    case 0
    then show ?case by (simp add: adjusted_nth_0)
  next
    case (Suc i)
    then have IH: "adjustedCoordinatesOf ps ! i = ps ! i" by simp
    from Suc.prems assms
    have "\<not> num_gt (num_abs (num_sub (snd (ps ! Suc i)) (snd (ps ! i)))) (Num 180)" by blast
    then show ?case
      using Suc.prems by (simp add: adjusted_nth_Suc IH step_no_change)
  qed
qed


subsection \<open>One step in rounded arithmetic\<close>

lemma num_sub_near:
  assumes "\<bar>a - b\<bar> \<le> 2 ^ 21"
  shows "\<exists>r. num_sub (Num a) (Num b) = Num r \<and> \<bar>r - (a - b)\<bar> \<le> 1 / 2 ^ 32"
  using roundDouble_near[of "a + - b"] assms by (simp add: num_sub_def)

lemma num_add_near:
  assumes "\<bar>a + b\<bar> \<le> 2 ^ 21"
  shows "\<exists>r. num_add (Num a) (Num b) = Num r \<and> \<bar>r - (a + b)\<bar> \<le> 1 / 2 ^ 32"
  using roundDouble_near[of "a + b"] assms by simp

lemma step_shift_near:
  assumes "snd c = Num y" and "\<bar>y\<bar> \<le> 2 ^ 20"
  shows "\<exists>k\<in>{- 1, 0, 1}. \<exists>z. snd (handleDateLineCrossing prev c) = Num z \<and>
           \<bar>z - (y + real_of_int k * 360)\<bar> \<le> 1 / 2 ^ 32"
proof -
  have "\<bar>y - 360\<bar> \<le> 2 ^ 21" using assms(2) by simp
  from num_sub_near[OF this] obtain s
    where s: "num_sub (Num y) (Num 360) = Num s" and se: "\<bar>s - (y - 360)\<bar> \<le> 1 / 2 ^ 32"
    by blast
  have "\<bar>y + 360\<bar> \<le> 2 ^ 21" using assms(2) by simp
  from num_add_near[OF this] obtain t
    where t: "num_add (Num y) (Num 360) = Num t" and te: "\<bar>t - (y + 360)\<bar> \<le> 1 / 2 ^ 32"
    by blast
  from step_snd[of prev c]
  consider "snd (handleDateLineCrossing prev c) = Num y"
    | "snd (handleDateLineCrossing prev c) = Num s"
    | "snd (handleDateLineCrossing prev c) = Num t"
    unfolding assms(1) s t by blast
  then show ?thesis
  proof cases
    case 1
    then have "\<exists>z. snd (handleDateLineCrossing prev c) = Num z \<and>
                 \<bar>z - (y + real_of_int 0 * 360)\<bar> \<le> 1 / 2 ^ 32"
      by simp
    then show ?thesis by blast
  next
    case 2
    then have "\<exists>z. snd (handleDateLineCrossing prev c) = Num z \<and>
                 \<bar>z - (y + real_of_int (- 1) * 360)\<bar> \<le> 1 / 2 ^ 32"
      using se by simp
    then show ?thesis by blast
  next
    case 3
    then have "\<exists>z. snd (handleDateLineCrossing prev c) = Num z \<and>
                 \<bar>z - (y + real_of_int 1 * 360)\<bar> \<le> 1 / 2 ^ 32"
      using te by simp
    then show ?thesis by blast
  qed
qed

subsection \<open>The grid of binary64 values\<close>

lemma roundTiesToEven_minus: "roundTiesToEven (- y) = - roundTiesToEven y"
proof (cases "y = real_of_int \<lfloor>y\<rfloor>")
  case True
  then have "y = real_of_int \<lfloor>y\<rfloor>" .
  then have 1: "roundTiesToEven y = \<lfloor>y\<rfloor>"
    using roundTiesToEven_of_int[of "\<lfloor>y\<rfloor>"] by simp
  have "- y = real_of_int (- \<lfloor>y\<rfloor>)" using True by simp
  then have "roundTiesToEven (- y) = - \<lfloor>y\<rfloor>"
    using roundTiesToEven_of_int[of "- \<lfloor>y\<rfloor>"] by simp
  with 1 show ?thesis by simp
next
  case False
  have "\<lfloor>- y\<rfloor> = - \<lceil>y\<rceil>" by (simp add: ceiling_def)
  also have "\<lceil>y\<rceil> = \<lfloor>y\<rfloor> + 1" using False by (simp add: ceiling_altdef)
  finally have f: "\<lfloor>- y\<rfloor> = - \<lfloor>y\<rfloor> - 1" by simp
  have "real_of_int \<lfloor>y\<rfloor> \<le> y" "y < real_of_int \<lfloor>y\<rfloor> + 1" by linarith+
  with False have r: "0 < y - real_of_int \<lfloor>y\<rfloor>" "y - real_of_int \<lfloor>y\<rfloor> < 1" by linarith+
  show ?thesis
    unfolding roundTiesToEven_def Let_def f using r by (auto simp: field_simps)
qed

lemma quantum_minus: "quantum (- x) = quantum x"
  by (simp add: quantum_def)

lemma roundDouble_minus: "roundDouble (- x) = num_neg (roundDouble x)"
proof (cases "x = 0")
  case True
  then show ?thesis by (simp add: roundDouble_integer)
next
  case False
  have "(- x) / 2 powi quantum x = - (x / 2 powi quantum x)" by simp
  then have m: "roundTiesToEven ((- x) / 2 powi quantum x) = - roundTiesToEven (x / 2 powi quantum x)"
    by (simp only: roundTiesToEven_minus)
  show ?thesis
    unfolding roundDouble_def Let_def quantum_minus m using False by auto
qed

lemma quantum_lower:
  assumes "- 1074 < quantum x"
  shows "2 powi (quantum x + 52) \<le> \<bar>x\<bar>"
proof (rule ccontr)
  assume "\<not> 2 powi (quantum x + 52) \<le> \<bar>x\<bar>"
  then have "\<bar>x\<bar> < 2 powi (quantum x + 52)" by simp
  moreover have "quantum x + 52 = (quantum x - 1) + 53" by simp
  ultimately have "\<bar>x\<bar> < 2 powi ((quantum x - 1) + 53)" by (simp only:)
  then have "quantum x \<le> quantum x - 1"
    using assms by (intro quantum_le) simp_all
  then show False by simp
qed

text \<open>A rounded value is a multiple of the quantum, at most half a quantum away.\<close>

lemma roundDouble_grid:
  assumes "roundDouble v = Num z"
  shows "\<exists>m. z = real_of_int m * 2 powi quantum v \<and> \<bar>z - v\<bar> \<le> 2 powi quantum v / 2"
proof -
  define Q where "Q = quantum v"
  define m where "m = roundTiesToEven (v / 2 powi Q)"
  have pos: "(0::real) < 2 powi Q" by simp
  from assms have z: "z = real_of_int m * 2 powi Q"
    unfolding roundDouble_def Let_def Q_def[symmetric] m_def[symmetric]
    by (auto split: if_splits)
  have "\<bar>real_of_int m - v / 2 powi Q\<bar> \<le> 1 / 2"
    unfolding m_def by (rule roundTiesToEven_error)
  then have "\<bar>real_of_int m - v / 2 powi Q\<bar> * 2 powi Q \<le> 1 / 2 * 2 powi Q"
    using pos by (intro mult_right_mono) auto
  moreover have "\<bar>real_of_int m - v / 2 powi Q\<bar> * 2 powi Q = \<bar>real_of_int m * 2 powi Q - v\<bar>"
  proof -
    have "\<bar>real_of_int m - v / 2 powi Q\<bar> * 2 powi Q = \<bar>(real_of_int m - v / 2 powi Q) * 2 powi Q\<bar>"
      using pos by (simp add: abs_mult)
    also have "(real_of_int m - v / 2 powi Q) * 2 powi Q = real_of_int m * 2 powi Q - v"
      using pos by (simp add: field_simps)
    finally show ?thesis .
  qed
  ultimately have "\<bar>z - v\<bar> \<le> 2 powi Q / 2" unfolding z by simp
  with z show ?thesis unfolding Q_def by blast
qed

text \<open>A binary64 value of magnitude \<open>2 powi (j + 52)\<close> or more is a multiple of \<open>2 powi j\<close>.\<close>

lemma double_grid:
  assumes "roundDouble w = Num w" and "2 powi (j + 52) \<le> \<bar>w\<bar>"
  shows "\<exists>k. w = real_of_int k * 2 powi j"
proof -
  from roundDouble_grid[OF assms(1)] obtain m
    where m: "w = real_of_int m * 2 powi quantum w" by blast
  have j: "j \<le> quantum w" using assms(2) by (rule quantum_ge)
  have "(2::real) powi quantum w = 2 powi (quantum w - j) * 2 powi j"
    by (simp add: power_int_add[symmetric])
  also have "(2::real) powi (quantum w - j) = 2 ^ nat (quantum w - j)"
    using j by (simp add: power_int_def)
  finally have "w = real_of_int (m * 2 ^ nat (quantum w - j)) * 2 powi j"
    using m by simp
  then show ?thesis by blast
qed

lemma roundTiesToEven_le_even:
  assumes "y \<le> real_of_int K + 1 / 2" and "even K"
  shows "roundTiesToEven y \<le> K"
proof (cases "y = real_of_int K + 1 / 2")
  case True
  then have "\<bar>y - real_of_int K\<bar> = 1 / 2" by simp
  from roundTiesToEven_tie[OF this assms(2)] show ?thesis by simp
next
  case False
  with assms(1) have "y < real_of_int K + 1 / 2" by simp
  moreover have "\<bar>real_of_int (roundTiesToEven y) - y\<bar> \<le> 1 / 2"
    by (rule roundTiesToEven_error)
  ultimately have "real_of_int (roundTiesToEven y) < real_of_int K + 1" by linarith
  then show ?thesis by linarith
qed

lemma roundTiesToEven_ge_even:
  assumes "real_of_int K - 1 / 2 \<le> y" and "even K"
  shows "K \<le> roundTiesToEven y"
proof (cases "y = real_of_int K - 1 / 2")
  case True
  then have "\<bar>y - real_of_int K\<bar> = 1 / 2" by simp
  from roundTiesToEven_tie[OF this assms(2)] show ?thesis by simp
next
  case False
  with assms(1) have "real_of_int K - 1 / 2 < y" by simp
  moreover have "\<bar>real_of_int (roundTiesToEven y) - y\<bar> \<le> 1 / 2"
    by (rule roundTiesToEven_error)
  ultimately have "real_of_int K - 1 < real_of_int (roundTiesToEven y)" by linarith
  then show ?thesis by linarith
qed


subsection \<open>Rounding next to 180 and 540\<close>

lemma round_le_180_pos:
  assumes "0 \<le> D" and "D \<le> 180 + 1 / 2 ^ 46"
  shows "\<exists>r. roundDouble D = Num r \<and> \<bar>r\<bar> \<le> 180"
proof (cases "D < 128")
  case True
  have "\<bar>D\<bar> < 2 powi (- 46 + 53)" using True assms(1) by (simp add: power_int_def)
  from roundDouble_error[OF this] obtain r
    where r: "roundDouble D = Num r" and "\<bar>r - D\<bar> \<le> 2 powi (- 46 - 1)" by auto
  then have "\<bar>r - D\<bar> \<le> 1" by (simp add: power_int_def field_simps)
  then have "\<bar>r\<bar> \<le> 180" using True assms(1) by linarith
  with r show ?thesis by blast
next
  case False
  define M where "M = roundTiesToEven (D * 2 ^ 45)"
  have D: "128 \<le> D" "D \<le> 180 + 1 / 70368744177664" using False assms(2) by simp_all
  have 1: "2 ^ 52 \<le> \<bar>D\<bar> * 2 ^ 45" using D by simp
  have 2: "\<bar>D\<bar> * 2 ^ 45 < 2 ^ 53" using D by simp
  have r: "roundDouble D = Num (real_of_int M / 2 ^ 45)"
    using 1 2 by (rule roundDouble_eval_scaled) (simp_all add: M_def)
  have "D * 2 ^ 45 \<le> real_of_int 6333186975989760 + 1 / 2" using D by simp
  then have up: "M \<le> 6333186975989760"
    unfolding M_def by (rule roundTiesToEven_le_even) simp
  have "real_of_int 0 - 1 / 2 \<le> D * 2 ^ 45" using D by simp
  then have lo: "0 \<le> M"
    unfolding M_def by (rule roundTiesToEven_ge_even) simp
  have "real_of_int M \<le> 6333186975989760" using up by linarith
  moreover have "0 \<le> real_of_int M" using lo by simp
  ultimately have "\<bar>real_of_int M / 2 ^ 45\<bar> \<le> 180" by simp
  with r show ?thesis by blast
qed

text \<open>
  A value of magnitude at most \<open>180 + 2\<^sup>-\<^sup>4\<^sup>6\<close> is rounded to a value of magnitude at most
  180: binary64 values next to 180 are \<open>2\<^sup>-\<^sup>4\<^sup>5\<close> apart, and 180 is the even one.
\<close>

lemma round_le_180:
  assumes "\<bar>D\<bar> \<le> 180 + 1 / 2 ^ 46"
  shows "\<exists>r. roundDouble D = Num r \<and> \<bar>r\<bar> \<le> 180"
proof (cases "0 \<le> D")
  case True
  then show ?thesis using assms by (intro round_le_180_pos) simp_all
next
  case False
  then have "0 \<le> - D" "- D \<le> 180 + 1 / 2 ^ 46" using assms by simp_all
  from round_le_180_pos[OF this] obtain r
    where "roundDouble (- D) = Num r" and r: "\<bar>r\<bar> \<le> 180" by blast
  then have "num_neg (roundDouble D) = Num r" by (simp add: roundDouble_minus)
  then have "roundDouble D = Num (- r)" by (cases "roundDouble D") simp_all
  with r show ?thesis by simp
qed

text \<open>A difference of at most 180 degrees is computed as at most 180 degrees.\<close>

lemma exact_gap_le_180:
  assumes "\<bar>y - x\<bar> \<le> 180"
  shows "num_le (num_abs (num_sub (Num y) (Num x))) (Num 180)"
proof -
  have "\<bar>y - x\<bar> \<le> 180 + 1 / 2 ^ 46" using assms by simp
  from round_le_180[OF this] show ?thesis by (auto simp: num_sub_def)
qed

lemma round_ge_540_pos:
  assumes "540 - 1 / 2 ^ 44 \<le> D" and "roundDouble D = Num r"
  shows "540 \<le> r"
proof (cases "D < 1024")
  case True
  define M where "M = roundTiesToEven (D * 2 ^ 43)"
  have D: "540 - 1 / 17592186044416 \<le> D" "D < 1024" using True assms(1) by simp_all
  have 1: "2 ^ 52 \<le> \<bar>D\<bar> * 2 ^ 43" using D by simp
  have 2: "\<bar>D\<bar> * 2 ^ 43 < 2 ^ 53" using D by simp
  have "roundDouble D = Num (real_of_int M / 2 ^ 43)"
    using 1 2 by (rule roundDouble_eval_scaled) (simp_all add: M_def)
  with assms(2) have r: "r = real_of_int M / 2 ^ 43" by simp
  have "real_of_int 4749890231992320 - 1 / 2 \<le> D * 2 ^ 43" using D by simp
  then have "4749890231992320 \<le> M"
    unfolding M_def by (rule roundTiesToEven_ge_even) simp
  then have "4749890231992320 \<le> real_of_int M" by linarith
  then show ?thesis unfolding r by simp
next
  case False
  define Q where "Q = quantum D"
  define u where "u = (2::real) powi Q"
  have D: "1024 \<le> D" using False by simp
  then have "2 powi (- 42 + 52) \<le> \<bar>D\<bar>" by (simp add: power_int_def)
  then have Q: "- 42 \<le> Q" unfolding Q_def by (rule quantum_ge)
  then have "2 powi (Q + 52) \<le> \<bar>D\<bar>" unfolding Q_def by (intro quantum_lower) simp
  moreover have "(2::real) powi (Q + 52) = u * 2 powi 52"
    unfolding u_def by (rule power_int_add) simp
  moreover have "(2::real) powi 52 = 4503599627370496" by (simp add: power_int_def)
  ultimately have u: "u * 4503599627370496 \<le> D" using D by simp
  from roundDouble_grid[OF assms(2)] have "\<bar>r - D\<bar> \<le> u / 2"
    unfolding u_def Q_def by blast
  then show ?thesis using u D by linarith
qed

text \<open>
  A value of magnitude \<open>540 - 2\<^sup>-\<^sup>4\<^sup>4\<close> or more is rounded to a value of magnitude 540 or
  more: binary64 values below 540 are \<open>2\<^sup>-\<^sup>4\<^sup>3\<close> apart, and 540 is the even one.
\<close>

lemma round_ge_540:
  assumes "540 - 1 / 2 ^ 44 \<le> \<bar>D\<bar>" and "roundDouble D = Num r"
  shows "540 \<le> \<bar>r\<bar>"
proof (cases "0 \<le> D")
  case True
  then have "540 - 1 / 2 ^ 44 \<le> D" using assms(1) by simp
  from round_ge_540_pos[OF this assms(2)] show ?thesis by simp
next
  case False
  then have 1: "540 - 1 / 2 ^ 44 \<le> - D" using assms(1) by simp
  have "roundDouble (- D) = Num (- r)" using assms(2) by (simp add: roundDouble_minus)
  from round_ge_540_pos[OF 1 this] show ?thesis by simp
qed


subsection \<open>A shift of one turn\<close>

lemma between_multiples:
  assumes "0 < h" and "real_of_int k * h < t" and "t < real_of_int (k + 1) * h"
    and "t = real_of_int n * h"
  shows False
proof -
  have "real_of_int k * h < real_of_int n * h" using assms(2,4) by simp
  then have 1: "real_of_int k < real_of_int n"
    using assms(1) by (simp only: mult_less_cancel_right_pos)
  have "real_of_int n * h < real_of_int (k + 1) * h" using assms(3,4) by simp
  then have 2: "real_of_int n < real_of_int (k + 1)"
    using assms(1) by (simp only: mult_less_cancel_right_pos)
  from 1 have "k < n" by simp
  moreover from 2 have "n < k + 1" by simp
  ultimately show False by simp
qed

lemma on_grid_180:
  assumes "j \<le> 2"
  shows "\<exists>c. (180::real) = real_of_int c * 2 powi j"
proof -
  have "(2::real) powi 2 = 2 powi (2 - j) * 2 powi j"
    by (simp add: power_int_add[symmetric])
  moreover have "(2::real) powi (2 - j) = 2 ^ nat (2 - j)"
    using assms by (simp add: power_int_def)
  moreover have "(2::real) powi 2 = 4" by (simp add: power_int_def)
  ultimately have "(4::real) = 2 ^ nat (2 - j) * 2 powi j" by simp
  then have "(180::real) = real_of_int (45 * 2 ^ nat (2 - j)) * 2 powi j"
    by (simp add: mult.commute)
  then show ?thesis by blast
qed

text \<open>
  The point lies more than 180 and less than 540 degrees below the previous one, and is
  moved up by one turn. The moved longitude is rounded, by up to half a quantum; were the
  error large enough to leave a gap that is computed above 180, the previous longitude
  and the point's own would lie strictly between two neighbours of the grid of the moved
  longitude, hence be of smaller magnitude than their distance to it allows.
\<close>

lemma shift_up_gap:
  assumes dx: "roundDouble x = Num x" and dy: "roundDouble y = Num y"
    and ym: "\<bar>y\<bar> \<le> 2 ^ 53"
    and lo: "180 + 1 / 2 ^ 46 < x - y" and hi: "x - y < 540 - 1 / 2 ^ 44"
  shows "\<exists>z g. roundDouble (y + 360) = Num z \<and> roundDouble (z - x) = Num g \<and> \<bar>g\<bar> \<le> 180"
proof -
  define v where "v = y + 360"
  define Q where "Q = quantum v"
  define u where "u = (2::real) powi Q"
  have lo': "180 + 1 / 70368744177664 < x - y" and hi': "x - y < 540 - 1 / 17592186044416"
    using lo hi by simp_all
  have ym': "\<bar>y\<bar> \<le> 9007199254740992" using ym by simp
  have vb: "\<bar>v\<bar> < 2 powi (2 + 53)"
    unfolding v_def using ym' by (simp add: power_int_def)
  from roundDouble_error[OF vb] obtain z where z: "roundDouble v = Num z" by auto
  have Q2: "Q \<le> 2" unfolding Q_def using vb by (rule quantum_le) simp
  have upos: "0 < u" unfolding u_def by simp
  from roundDouble_grid[OF z] obtain m
    where zm: "z = real_of_int m * u" and ze: "\<bar>z - v\<bar> \<le> u / 2"
    unfolding u_def Q_def by blast
  have half: "(2::real) powi (Q - 1) = u / 2"
    unfolding u_def by (simp add: power_int_diff)
  from on_grid_180[of "Q - 1"] Q2 obtain c where c: "(180::real) = real_of_int c * (u / 2)"
    unfolding half by auto
  then have c360: "(360::real) = real_of_int c * u" by simp
  have B: "(2::real) powi (Q + 52) = u * 4503599627370496"
  proof -
    have "(2::real) powi (Q + 52) = u * 2 powi 52"
      unfolding u_def by (rule power_int_add) simp
    then show ?thesis by (simp add: power_int_def)
  qed
  have Bh: "(2::real) powi (Q - 1 + 52) = u * 2251799813685248"
  proof -
    have "(2::real) powi (Q - 1 + 52) = 2 powi (Q - 1) * 2 powi 52"
      by (rule power_int_add) simp
    then show ?thesis unfolding half by (simp add: power_int_def)
  qed
  have zh: "z = real_of_int (2 * m) * (u / 2)" using zm by simp
  have xgrid: "\<exists>n. x + 180 = real_of_int n * (u / 2) \<and> x - 180 = real_of_int (n - 2 * c) * (u / 2)"
    if "u * 2251799813685248 \<le> \<bar>x\<bar>"
  proof -
    from that have "2 powi (Q - 1 + 52) \<le> \<bar>x\<bar>" unfolding Bh .
    from double_grid[OF dx this] obtain k where "x = real_of_int k * (u / 2)"
      unfolding half by blast
    then have "x + 180 = real_of_int (k + c) * (u / 2)"
      and "x - 180 = real_of_int (k + c - 2 * c) * (u / 2)"
      using c by (simp_all add: algebra_simps)
    then show ?thesis by blast
  qed
  have ygrid: "\<exists>n. v = real_of_int n * u" if "u * 4503599627370496 \<le> \<bar>y\<bar>"
  proof -
    from that have "2 powi (Q + 52) \<le> \<bar>y\<bar>" unfolding B .
    from double_grid[OF dy this] obtain k where "y = real_of_int k * u"
      unfolding u_def by blast
    then have "v = real_of_int (k + c) * u"
      unfolding v_def using c360 by (simp add: algebra_simps)
    then show ?thesis by blast
  qed
  have upper: "z - x \<le> 180 + 1 / 2 ^ 46"
  proof (rule ccontr)
    assume "\<not> z - x \<le> 180 + 1 / 2 ^ 46"
    then have a: "180 + 1 / 70368744177664 < z - x" by simp
    have e: "1 / 35184372088832 < z - v" unfolding v_def using a lo' by linarith
    then have ubig: "1 / 17592186044416 < u" using ze by linarith
    have Q43: "- 43 \<le> Q"
    proof (rule ccontr)
      assume "\<not> - 43 \<le> Q"
      then have "Q \<le> - 44" by simp
      then have "u \<le> 2 powi (- 44)" unfolding u_def by (intro power_int_increasing) auto
      then show False using ubig by (simp add: power_int_def power_one_over)
    qed
    have "(2::real) powi 9 \<le> 2 powi (Q + 52)"
      using Q43 by (intro power_int_increasing) auto
    then have B512: "512 \<le> u * 4503599627370496" unfolding B by (simp add: power_int_def)
    have "2 powi (Q + 52) \<le> \<bar>v\<bar>" unfolding Q_def using Q43 Q_def by (intro quantum_lower) simp
    then have Bv: "u * 4503599627370496 \<le> \<bar>v\<bar>" unfolding B .
    have vz: "v < z" using e by linarith
    have xz: "x + 180 < z" using a by linarith
    have vx: "v < x + 180" unfolding v_def using lo' by linarith
    have zv: "z - u / 2 \<le> v" using ze by linarith
    have xs: "\<bar>x\<bar> < u * 2251799813685248"
    proof (rule ccontr)
      assume "\<not> \<bar>x\<bar> < u * 2251799813685248"
      then have "u * 2251799813685248 \<le> \<bar>x\<bar>" by simp
      from xgrid[OF this] obtain n where n: "x + 180 = real_of_int n * (u / 2)" by blast
      have 1: "real_of_int (2 * m - 1) * (u / 2) < x + 180"
        using zv vx zm by (simp add: algebra_simps)
      have 2: "x + 180 < real_of_int (2 * m - 1 + 1) * (u / 2)"
        using xz zm by (simp add: algebra_simps)
      from between_multiples[OF _ 1 2 n] upos show False by simp
    qed
    have ys: "\<bar>y\<bar> < u * 4503599627370496"
    proof (rule ccontr)
      assume "\<not> \<bar>y\<bar> < u * 4503599627370496"
      then have "u * 4503599627370496 \<le> \<bar>y\<bar>" by simp
      from ygrid[OF this] obtain n where n: "v = real_of_int n * u" by blast
      have 1: "real_of_int (m - 1) * u < v"
        using zv zm upos by (simp add: algebra_simps)
      have 2: "v < real_of_int (m - 1 + 1) * u"
        using vz zm by simp
      from between_multiples[OF upos 1 2 n] show False .
    qed
    have "0 \<le> v"
    proof (rule ccontr)
      assume "\<not> 0 \<le> v"
      then have "u * 4503599627370496 \<le> - v" using Bv by simp
      then show False using ys unfolding v_def by linarith
    qed
    then have "u * 4503599627370496 \<le> v" using Bv by simp
    then show False using vx xs B512 by linarith
  qed
  have lower: "- (180 + 1 / 2 ^ 46) \<le> z - x"
  proof (rule ccontr)
    assume "\<not> - (180 + 1 / 2 ^ 46) \<le> z - x"
    then have a: "z - x < - 180 - 1 / 70368744177664" by simp
    have e: "z - v < - (1 / 17592186044416)" unfolding v_def using a hi' by linarith
    then have ubig: "1 / 8796093022208 < u" using ze by linarith
    have Q42: "- 42 \<le> Q"
    proof (rule ccontr)
      assume "\<not> - 42 \<le> Q"
      then have "Q \<le> - 43" by simp
      then have "u \<le> 2 powi (- 43)" unfolding u_def by (intro power_int_increasing) auto
      then show False using ubig by (simp add: power_int_def power_one_over)
    qed
    have "2 powi (Q + 52) \<le> \<bar>v\<bar>" unfolding Q_def using Q42 Q_def by (intro quantum_lower) simp
    then have Bv: "u * 4503599627370496 \<le> \<bar>v\<bar>" unfolding B .
    have zv: "z < v" using e by linarith
    have zx: "z < x - 180" using a by linarith
    have xv: "x - 180 < v" unfolding v_def using hi' by linarith
    have vz: "v \<le> z + u / 2" using ze by linarith
    have xs: "\<bar>x\<bar> < u * 2251799813685248"
    proof (rule ccontr)
      assume "\<not> \<bar>x\<bar> < u * 2251799813685248"
      then have "u * 2251799813685248 \<le> \<bar>x\<bar>" by simp
      from xgrid[OF this] obtain n where n: "x - 180 = real_of_int n * (u / 2)" by blast
      have 1: "real_of_int (2 * m) * (u / 2) < x - 180"
        using zx zm by simp
      have 2: "x - 180 < real_of_int (2 * m + 1) * (u / 2)"
        using xv vz zm by (simp add: algebra_simps)
      from between_multiples[OF _ 1 2 n] upos show False by simp
    qed
    have ys: "\<bar>y\<bar> < u * 4503599627370496"
    proof (rule ccontr)
      assume "\<not> \<bar>y\<bar> < u * 4503599627370496"
      then have "u * 4503599627370496 \<le> \<bar>y\<bar>" by simp
      from ygrid[OF this] obtain n where n: "v = real_of_int n * u" by blast
      have 1: "real_of_int m * u < v"
        using zv zm by simp
      have 2: "v < real_of_int (m + 1) * u"
        using vz zm upos by (simp add: algebra_simps)
      from between_multiples[OF upos 1 2 n] show False .
    qed
    have "0 \<le> v"
    proof (rule ccontr)
      assume "\<not> 0 \<le> v"
      then have "u * 4503599627370496 \<le> - v" using Bv by simp
      then show False using ys unfolding v_def by linarith
    qed
    then have "u * 4503599627370496 \<le> v" using Bv by simp
    then show False using zx vz xs upos by linarith
  qed
  from upper lower have "\<bar>z - x\<bar> \<le> 180 + 1 / 2 ^ 46" by (simp only: abs_le_iff) simp
  from round_le_180[OF this] obtain g where "roundDouble (z - x) = Num g" "\<bar>g\<bar> \<le> 180"
    by blast
  with z show ?thesis unfolding v_def by blast
qed


lemma shift_down_gap:
  assumes dx: "roundDouble x = Num x" and dy: "roundDouble y = Num y"
    and ym: "\<bar>y\<bar> \<le> 2 ^ 53"
    and lo: "180 + 1 / 2 ^ 46 < y - x" and hi: "y - x < 540 - 1 / 2 ^ 44"
  shows "\<exists>z g. roundDouble (y - 360) = Num z \<and> roundDouble (z - x) = Num g \<and> \<bar>g\<bar> \<le> 180"
proof -
  have dx': "roundDouble (- x) = Num (- x)" using dx by (simp add: roundDouble_minus)
  have dy': "roundDouble (- y) = Num (- y)" using dy by (simp add: roundDouble_minus)
  have ym': "\<bar>- y\<bar> \<le> 2 ^ 53" using ym by simp
  have lo': "180 + 1 / 2 ^ 46 < - x - - y" using lo by simp
  have hi': "- x - - y < 540 - 1 / 2 ^ 44" using hi by simp
  from shift_up_gap[OF dx' dy' ym' lo' hi'] obtain z g
    where 1: "roundDouble (- y + 360) = Num z" and 2: "roundDouble (z - - x) = Num g"
      and 3: "\<bar>g\<bar> \<le> 180"
    by blast
  have "y - 360 = - (- y + 360)" by simp
  then have "roundDouble (y - 360) = num_neg (roundDouble (- y + 360))"
    by (simp only: roundDouble_minus)
  then have a: "roundDouble (y - 360) = Num (- z)" using 1 by simp
  have "- z - x = - (z - - x)" by simp
  then have "roundDouble (- z - x) = num_neg (roundDouble (z - - x))"
    by (simp only: roundDouble_minus)
  then have b: "roundDouble (- z - x) = Num (- g)" using 2 by simp
  from a b 3 show ?thesis by (intro exI[of _ "- z"] exI[of _ "- g"]) simp
qed

text \<open>
  A shift of one turn closes every gap that the code computes below 540, for binary64
  longitudes, the one of the point at most \<open>2\<^sup>5\<^sup>3\<close> in magnitude.
\<close>

lemma step_closes_gap:
  assumes dx: "roundDouble x = Num x" and dy: "roundDouble y = Num y"
    and ym: "\<bar>y\<bar> \<le> 2 ^ 53"
    and d: "num_gt (Num 540) (num_abs (num_sub (Num y) (Num x)))"
  shows "num_le (num_abs (num_sub (snd (handleDateLineCrossing (Some (a, Num x)) (b, Num y)))
                            (Num x)))
           (Num 180)"
proof -
  from d obtain r where r: "roundDouble (y - x) = Num r" and r540: "\<bar>r\<bar> < 540"
    by (cases "roundDouble (y - x)") (simp_all add: num_sub_def)
  have sub: "num_sub (Num y) (Num x) = Num r" by (simp add: num_sub_def r)
  show ?thesis
  proof (cases "\<bar>r\<bar> \<le> 180")
    case True
    then show ?thesis by (simp add: handleDateLineCrossing_def sub)
  next
    case False
    have D1: "180 + 1 / 2 ^ 46 < \<bar>y - x\<bar>"
    proof (rule ccontr)
      assume "\<not> 180 + 1 / 2 ^ 46 < \<bar>y - x\<bar>"
      then have "\<bar>y - x\<bar> \<le> 180 + 1 / 2 ^ 46" by simp
      from round_le_180[OF this] show False using r False by simp
    qed
    have D2: "\<bar>y - x\<bar> < 540 - 1 / 2 ^ 44"
    proof (rule ccontr)
      assume "\<not> \<bar>y - x\<bar> < 540 - 1 / 2 ^ 44"
      then have "540 - 1 / 2 ^ 44 \<le> \<bar>y - x\<bar>" by simp
      from round_ge_540[OF this r] show False using r540 by simp
    qed
    show ?thesis
    proof (cases "y > x")
      case True
      then have "180 + 1 / 2 ^ 46 < y - x" "y - x < 540 - 1 / 2 ^ 44"
        using D1 D2 by simp_all
      from shift_down_gap[OF dx dy ym this] obtain z g
        where z: "roundDouble (y - 360) = Num z" and g: "roundDouble (z - x) = Num g"
          and g180: "\<bar>g\<bar> \<le> 180"
        by blast
      have s: "num_sub (Num y) (Num 360) = Num z" using z by (simp add: num_sub_def)
      have t: "num_sub (Num z) (Num x) = Num g" using g by (simp add: num_sub_def)
      show ?thesis
        using True False g180 by (simp add: handleDateLineCrossing_def Let_def sub s t)
    next
      case le: False
      then have "180 + 1 / 2 ^ 46 < x - y" "x - y < 540 - 1 / 2 ^ 44"
        using D1 D2 by simp_all
      from shift_up_gap[OF dx dy ym this] obtain z g
        where z: "roundDouble (y + 360) = Num z" and g: "roundDouble (z - x) = Num g"
          and g180: "\<bar>g\<bar> \<le> 180"
        by blast
      have t: "num_sub (Num z) (Num x) = Num g" using g by (simp add: num_sub_def)
      show ?thesis
        using le False g180 by (simp add: handleDateLineCrossing_def Let_def sub z t)
    qed
  qed
qed

subsection \<open>Adjusted longitudes are binary64 values\<close>

lemma quantum_upper: "\<bar>x\<bar> < 2 powi (quantum x + 53)"
proof (rule ccontr)
  assume "\<not> \<bar>x\<bar> < 2 powi (quantum x + 53)"
  then have "2 powi (quantum x + 53) \<le> \<bar>x\<bar>" by simp
  moreover have "quantum x + 53 = (quantum x + 1) + 52" by simp
  ultimately have "2 powi ((quantum x + 1) + 52) \<le> \<bar>x\<bar>" by (simp only:)
  then have "quantum x + 1 \<le> quantum x" by (rule quantum_ge)
  then show False by simp
qed

lemma roundDouble_idem:
  assumes "roundDouble x = Num r"
  shows "roundDouble r = Num r"
proof -
  define Q where "Q = quantum x"
  define u where "u = (2::real) powi Q"
  define m where "m = roundTiesToEven (x / u)"
  have upos: "0 < u" unfolding u_def by simp
  from assms have rm: "r = real_of_int m * u" and fin: "\<bar>real_of_int m\<bar> * u < 2 ^ 1024"
    unfolding roundDouble_def Let_def Q_def[symmetric] u_def[symmetric] m_def[symmetric]
    by (auto split: if_splits)
  have Qmin: "- 1074 \<le> Q" unfolding Q_def by (rule quantum_ge_min)
  have p53: "(2::real) powi (Q + 53) = u * 2 ^ 53"
  proof -
    have "(2::real) powi (Q + 53) = u * 2 powi 53"
      unfolding u_def by (rule power_int_add) simp
    then show ?thesis by (simp add: power_int_def)
  qed
  have p52: "(2::real) powi (Q + 52) = u * 2 ^ 52"
  proof -
    have "(2::real) powi (Q + 52) = u * 2 powi 52"
      unfolding u_def by (rule power_int_add) simp
    then show ?thesis by (simp add: power_int_def)
  qed
  have me: "\<bar>real_of_int m - x / u\<bar> \<le> 1 / 2"
    unfolding m_def by (rule roundTiesToEven_error)
  have "\<bar>x\<bar> < u * 2 ^ 53" using quantum_upper[of x] unfolding Q_def[symmetric] p53 .
  then have "\<bar>x\<bar> / u < 2 ^ 53" using upos by (simp add: field_simps)
  then have "\<bar>x / u\<bar> < 2 ^ 53" using upos by simp
  then have "\<bar>real_of_int m\<bar> < 2 ^ 53 + 1" using me by linarith
  then have "real_of_int \<bar>m\<bar> < real_of_int (2 ^ 53 + 1)" by simp
  then have "\<bar>m\<bar> < 2 ^ 53 + 1" by (simp only: of_int_less_iff)
  then have mle: "\<bar>m\<bar> \<le> 2 ^ 53" by simp
  show ?thesis
  proof (cases "\<bar>m\<bar> < 2 ^ 53")
    case small: True
    show ?thesis
    proof (cases "Q \<le> 971")
      case True
      have "r = real_of_int m * 2 powi Q" using rm unfolding u_def .
      then show ?thesis using small Qmin True by (rule roundDouble_exact)
    next
      case False
      then have Q: "972 \<le> Q" by simp
      then have "- 1074 < quantum x" unfolding Q_def by simp
      from quantum_lower[OF this] have "u * 2 ^ 52 \<le> \<bar>x\<bar>"
        unfolding Q_def[symmetric] p52 .
      then have "2 ^ 52 \<le> \<bar>x\<bar> / u" using upos by (simp add: field_simps)
      then have "2 ^ 52 \<le> \<bar>x / u\<bar>" using upos by simp
      then have "2 ^ 52 - 1 < \<bar>real_of_int m\<bar>" using me by linarith
      then have "real_of_int (2 ^ 52 - 1) < real_of_int \<bar>m\<bar>" by simp
      then have "2 ^ 52 - 1 < \<bar>m\<bar>" by (simp only: of_int_less_iff)
      then have "2 ^ 52 \<le> \<bar>m\<bar>" by simp
      then have "real_of_int (2 ^ 52) \<le> real_of_int \<bar>m\<bar>" by (simp only: of_int_le_iff)
      then have m52: "2 ^ 52 \<le> \<bar>real_of_int m\<bar>" by simp
      have "(2::real) powi 972 \<le> u" unfolding u_def using Q by (intro power_int_increasing) auto
      then have u972: "2 ^ 972 \<le> u" by (simp add: power_int_def)
      have "(2::real) ^ 52 * 2 ^ 972 \<le> \<bar>real_of_int m\<bar> * u"
        using m52 u972 by (intro mult_mono) simp_all
      moreover have "(2::real) ^ 52 * 2 ^ 972 = 2 ^ 1024" by (simp add: power_add[symmetric])
      ultimately show ?thesis using fin by simp
    qed
  next
    case False
    with mle have big: "\<bar>m\<bar> = 2 ^ 53" by simp
    then have "real_of_int \<bar>m\<bar> = real_of_int (2 ^ 53)" by (simp only:)
    then have "\<bar>real_of_int m\<bar> = 2 ^ 53" by simp
    with fin have "2 ^ 53 * u < (2::real) ^ 1024" by simp
    moreover have "(2::real) ^ 1024 = 2 ^ 53 * 2 ^ 971" by (simp add: power_add[symmetric])
    ultimately have "u < 2 ^ 971" by simp
    then have ul: "u < 2 powi 971" by (simp add: power_int_def)
    have Q: "Q < 971"
    proof (rule ccontr)
      assume "\<not> Q < 971"
      then have "971 \<le> Q" by simp
      then have "(2::real) powi 971 \<le> u"
        unfolding u_def by (intro power_int_increasing) auto
      with ul show False by simp
    qed
    define k where "k = (if m < 0 then - (2 ^ 52) else (2 ^ 52 :: int))"
    have m: "m = 2 * k" using big unfolding k_def by auto
    have k: "\<bar>k\<bar> < 2 ^ 53" unfolding k_def by simp
    have "(2::real) powi (Q + 1) = u * 2"
      unfolding u_def by (simp add: power_int_add)
    then have "r = real_of_int k * 2 powi (Q + 1)" using rm m by simp
    then show ?thesis using k by (rule roundDouble_exact) (use Qmin Q in simp_all)
  qed
qed

lemma adjusted_double:
  assumes wf: "\<forall>j<length ps. \<forall>v. snd (ps ! j) = Num v \<longrightarrow> roundDouble v = Num v"
    and i: "i < length ps" and x: "snd (adjustedCoordinatesOf ps ! i) = Num x"
  shows "roundDouble x = Num x"
proof -
  from adjusted_nth_step[OF i] obtain prev
    where eq: "adjustedCoordinatesOf ps ! i = handleDateLineCrossing prev (ps ! i)" ..
  from step_snd[of prev "ps ! i"]
  consider "Num x = snd (ps ! i)"
    | "Num x = num_sub (snd (ps ! i)) (Num 360)"
    | "Num x = num_add (snd (ps ! i)) (Num 360)"
    unfolding eq[symmetric] x by blast
  then show ?thesis
  proof cases
    case 1
    then show ?thesis using wf i by simp
  next
    case 2
    then obtain v where "snd (ps ! i) = Num v"
      by (cases "snd (ps ! i)") (simp_all add: num_sub_def)
    with 2 have "roundDouble (v - 360) = Num x" by (simp add: num_sub_def)
    then show ?thesis by (rule roundDouble_idem)
  next
    case 3
    then obtain v where "snd (ps ! i) = Num v"
      by (cases "snd (ps ! i)") simp_all
    with 3 have "roundDouble (v + 360) = Num x" by simp
    then show ?thesis by (rule roundDouble_idem)
  qed
qed

section \<open>Claims about the adjusted coordinates\<close>

text \<open>
  C3, as stated, fails: the difference is a rounded one. After a point at longitude 180,
  the point at longitude \<open>-2\<^sup>-\<^sup>7\<^sup>0\<close>, a binary64 value, is more than 180 degrees away,
  and it is not adjusted: the difference that the code computes is 180.
\<close>

theorem adjustment_rule_counterexample:
  "roundDouble (- (1 / 2 ^ 70)) = Num (- (1 / 2 ^ 70)) \<and>
   \<bar>- (1 / 2 ^ 70) - 180\<bar> > (180 :: real) \<and>
   adjustedCoordinatesOf [(Num 0, Num 180), (Num 0, Num (- (1 / 2 ^ 70)))] =
     [(Num 0, Num 180), (Num 0, Num (- (1 / 2 ^ 70)))]"
proof -
  have d: "roundDouble (- (1 / 2 ^ 70)) = Num (- (1 / 2 ^ 70))"
    using roundDouble_eval_fraction[of "- (1 / 2 ^ 70)" 122 "- (2 ^ 52)"] by simp
  have s: "roundDouble (- (212506491729134034616321 / 1180591620717411303424)) = Num (- 180)"
    using roundDouble_eval_fraction[of "- (212506491729134034616321 / 1180591620717411303424)" 45
        "- 180 * 2 ^ 45"]
    by simp
  have a: "adjustedCoordinatesOf [(Num 0, Num 180), (Num 0, Num (- (1 / 2 ^ 70)))] =
     [(Num 0, Num 180), (Num 0, Num (- (1 / 2 ^ 70)))]"
    by (simp add: adjustedCoordinatesOf_def handleDateLineCrossing_def lastElement_def
        num_sub_def s)
  from d a show ?thesis by simp
qed

text \<open>
  C3, amended. Each point after the first is adjusted exactly when the absolute
  difference between its longitude and the previous adjusted longitude, as binary64
  arithmetic computes it, exceeds 180 degrees; the adjustment subtracts 360 when the
  current longitude is greater than the previous adjusted one and adds 360 otherwise,
  the result rounded to binary64; the first point is never adjusted. The route
  \<open>[(0, 179), (0, -179)]\<close> becomes \<open>[(0, 179), (0, 181)]\<close>.
\<close>

theorem adjustment_rule:
  "(0 < length ps \<longrightarrow> adjustedCoordinatesOf ps ! 0 = ps ! 0) \<and>
   (Suc i < length ps \<longrightarrow>
      adjustedCoordinatesOf ps ! Suc i =
        (if num_gt (num_abs (num_sub (snd (ps ! Suc i)) (snd (adjustedCoordinatesOf ps ! i))))
              (Num 180)
         then (fst (ps ! Suc i),
               if num_gt (snd (ps ! Suc i)) (snd (adjustedCoordinatesOf ps ! i))
               then num_sub (snd (ps ! Suc i)) (Num 360)
               else num_add (snd (ps ! Suc i)) (Num 360))
         else ps ! Suc i)) \<and>
   adjustedCoordinatesOf [(Num 0, Num 179), (Num 0, Num (-179))] =
     [(Num 0, Num 179), (Num 0, Num 181)]"
proof (intro conjI impI)
  assume "0 < length ps"
  then show "adjustedCoordinatesOf ps ! 0 = ps ! 0" by (rule adjusted_nth_0)
next
  assume "Suc i < length ps"
  then show "adjustedCoordinatesOf ps ! Suc i =
        (if num_gt (num_abs (num_sub (snd (ps ! Suc i)) (snd (adjustedCoordinatesOf ps ! i))))
              (Num 180)
         then (fst (ps ! Suc i),
               if num_gt (snd (ps ! Suc i)) (snd (adjustedCoordinatesOf ps ! i))
               then num_sub (snd (ps ! Suc i)) (Num 360)
               else num_add (snd (ps ! Suc i)) (Num 360))
         else ps ! Suc i)"
    by (simp add: adjusted_nth_Suc handleDateLineCrossing_def Let_def)
next
  show "adjustedCoordinatesOf [(Num 0, Num 179), (Num 0, Num (-179))] =
     [(Num 0, Num 179), (Num 0, Num 181)]"
    by (simp add: adjustedCoordinatesOf_def handleDateLineCrossing_def lastElement_def
        num_sub_def roundDouble_integer)
qed

theorem adjustment_rule_witness:
  "Suc 0 < length [(Num 0, Num 10), (Num 5, Num (-175)), (Num 7, Num 170)] \<and>
   adjustedCoordinatesOf [(Num 0, Num 10), (Num 5, Num (-175)), (Num 7, Num 170)] ! 0 =
     (Num 0, Num 10) \<and>
   adjustedCoordinatesOf [(Num 0, Num 10), (Num 5, Num (-175)), (Num 7, Num 170)] ! Suc 0 =
     (Num 5, Num 185)"
  using adjustment_rule [of "[(Num 0, Num 10), (Num 5, Num (-175)), (Num 7, Num 170)]" 0]
  by (simp add: adjustedCoordinatesOf_def handleDateLineCrossing_def lastElement_def
      num_sub_def roundDouble_integer)

text \<open>
  C2, as stated, fails. On the winding route the adjusted longitudes are 170, 190, 369
  and 180, and the last two differ by 189 degrees: one turn does not close a gap of more
  than 540 degrees. On the decimal route the adjusted longitudes are the binary64 values
  nearest to 121.8, 259.3, 433.1 and 253.1: the last point is 540 degrees from 433.1 as
  the code computes it, and the shifted point is more than 180 degrees from 433.1. On
  the far route the second point is 512 degrees from the first; moved down by one turn
  it is rounded to the binary64 value 256 degrees from the first.
\<close>

theorem consecutive_gap_counterexample:
  "adjustedCoordinatesOf windingRoute =
     [(Num 0, Num 170), (Num 0, Num 190), (Num 0, Num 369), (Num 0, Num 180)] \<and>
   \<not> num_le (num_abs (num_sub (snd (adjustedCoordinatesOf windingRoute ! 3))
                               (snd (adjustedCoordinatesOf windingRoute ! 2))))
        (Num 180) \<and>
   num_abs (num_sub (snd (decimalRoute ! 3)) (snd (adjustedCoordinatesOf decimalRoute ! 2))) =
     Num 540 \<and>
   num_abs (num_sub (snd (adjustedCoordinatesOf decimalRoute ! 3))
                    (snd (adjustedCoordinatesOf decimalRoute ! 2))) =
     Num (6333186975989761 / 35184372088832) \<and>
   \<not> num_le (Num (6333186975989761 / 35184372088832)) (Num 180) \<and>
   roundDouble (2 ^ 61 - 512) = Num (2 ^ 61 - 512) \<and>
   roundDouble (2 ^ 61) = Num (2 ^ 61) \<and>
   num_abs (num_sub (snd (farRoute ! 1)) (snd (adjustedCoordinatesOf farRoute ! 0))) =
     Num 512 \<and>
   num_abs (num_sub (snd (adjustedCoordinatesOf farRoute ! 1))
                    (snd (adjustedCoordinatesOf farRoute ! 0))) =
     Num 256"
proof -
  have r1: "roundDouble (- (445 / 2)) = Num (- (445 / 2))"
    using roundDouble_eval_fraction[of "- (445 / 2)" 45 "- 7828522789765120"] by simp
  have r2: "roundDouble (18246615365268275 / 70368744177664) = Num (4561653841317069 / 17592186044416)"
    using roundDouble_eval_fraction[of "18246615365268275 / 70368744177664" 44 "4561653841317069"] by simp
  have r3: "roundDouble (- (6551330082940519 / 35184372088832)) = Num (- (6551330082940519 / 35184372088832))"
    using roundDouble_eval_fraction[of "- (6551330082940519 / 35184372088832)" 45 "- 6551330082940519"] by simp
  have r4: "roundDouble (15238351551673139 / 35184372088832) = Num (3809587887918285 / 8796093022208)"
    using roundDouble_eval_tie[of "15238351551673139 / 35184372088832" 44 "7619175775836570"] by simp
  have r5: "roundDouble (- (18999560927969281 / 35184372088832)) = Num (- 540)"
    using roundDouble_eval_fraction[of "- (18999560927969281 / 35184372088832)" 43 "- 4749890231992320"] by simp
  have r6: "roundDouble (8905164575683379 / 35184372088832) = Num (8905164575683379 / 35184372088832)"
    using roundDouble_eval_fraction[of "8905164575683379 / 35184372088832" 45 "8905164575683379"] by simp
  have r7: "roundDouble (- (6333186975989761 / 35184372088832)) = Num (- (6333186975989761 / 35184372088832))"
    using roundDouble_eval_fraction[of "- (6333186975989761 / 35184372088832)" 45 "- 6333186975989761"] by simp
  have w: "adjustedCoordinatesOf windingRoute =
     [(Num 0, Num 170), (Num 0, Num 190), (Num 0, Num 369), (Num 0, Num 180)]"
    by (simp add: windingRoute_def adjustedCoordinatesOf_def handleDateLineCrossing_def
        lastElement_def num_sub_def roundDouble_integer)
  have d: "adjustedCoordinatesOf decimalRoute =
     [(Num 0, Num (8570913040839475 / 70368744177664)),
      (Num 0, Num (4561653841317069 / 17592186044416)),
      (Num 0, Num (3809587887918285 / 8796093022208)),
      (Num 0, Num (8905164575683379 / 35184372088832))]"
    by (simp add: decimalRoute_def adjustedCoordinatesOf_def handleDateLineCrossing_def
        lastElement_def num_sub_def r1 r2 r3 r4 r5 r6)
  have f1: "roundDouble 2305843009213693440 = Num 2305843009213693440"
    using roundDouble_exact[of 2305843009213693440 9007199254740990 8]
    by (simp add: power_int_def)
  have f2: "roundDouble 2305843009213693952 = Num 2305843009213693952"
    using roundDouble_exact[of 2305843009213693952 4503599627370496 9]
    by (simp add: power_int_def)
  have f3: "roundDouble 2305843009213693592 = Num 2305843009213693696"
    using roundDouble_eval[of 8 2305843009213693592 9007199254740991]
    by (simp add: power_int_def)
  have f: "adjustedCoordinatesOf farRoute =
     [(Num 0, Num 2305843009213693440), (Num 0, Num 2305843009213693696)]"
    by (simp add: farRoute_def adjustedCoordinatesOf_def handleDateLineCrossing_def
        lastElement_def num_sub_def roundDouble_integer f3)
  have p1: "\<not> num_le (num_abs (num_sub (snd (adjustedCoordinatesOf windingRoute ! 3))
                               (snd (adjustedCoordinatesOf windingRoute ! 2))))
        (Num 180)"
    unfolding w by (simp add: num_sub_def roundDouble_integer)
  have p2: "num_abs (num_sub (snd (decimalRoute ! 3)) (snd (adjustedCoordinatesOf decimalRoute ! 2))) =
     Num 540"
    unfolding d by (simp add: decimalRoute_def num_sub_def r5)
  have p3: "num_abs (num_sub (snd (adjustedCoordinatesOf decimalRoute ! 3))
                    (snd (adjustedCoordinatesOf decimalRoute ! 2))) =
     Num (6333186975989761 / 35184372088832)"
    unfolding d by (simp add: num_sub_def r7)
  have p4: "num_abs (num_sub (snd (farRoute ! 1)) (snd (adjustedCoordinatesOf farRoute ! 0))) =
     Num 512"
    unfolding f by (simp add: farRoute_def num_sub_def roundDouble_integer)
  have p5: "num_abs (num_sub (snd (adjustedCoordinatesOf farRoute ! 1))
                    (snd (adjustedCoordinatesOf farRoute ! 0))) =
     Num 256"
    unfolding f by (simp add: num_sub_def roundDouble_integer)
  from w p1 p2 p3 p4 p5 f1 f2 show ?thesis by simp
qed

text \<open>
  C2, amended. For a route whose longitudes are binary64 values, and a point after the
  first whose longitude is at most \<open>2\<^sup>5\<^sup>3\<close> in magnitude: when the difference between
  its longitude and the previous adjusted longitude, as the code computes it, is less
  than 540 degrees, the adjusted point and the previous adjusted point differ, as the
  code computes it, by at most 180 degrees in longitude.
\<close>

theorem consecutive_gap_bounded:
  assumes "\<forall>j<length ps. \<forall>v. snd (ps ! j) = Num v \<longrightarrow> roundDouble v = Num v"
    and "Suc i < length ps"
    and "snd (ps ! Suc i) = Num y" and "\<bar>y\<bar> \<le> 2 ^ 53"
    and "num_gt (Num 540)
           (num_abs (num_sub (snd (ps ! Suc i)) (snd (adjustedCoordinatesOf ps ! i))))"
  shows "num_le (num_abs (num_sub (snd (adjustedCoordinatesOf ps ! Suc i))
                                  (snd (adjustedCoordinatesOf ps ! i))))
           (Num 180)"
proof -
  from assms(5) obtain x where x: "snd (adjustedCoordinatesOf ps ! i) = Num x"
    unfolding assms(3) by (cases "snd (adjustedCoordinatesOf ps ! i)") (simp_all add: num_sub_def)
  have i: "i < length ps" using assms(2) by simp
  have dx: "roundDouble x = Num x" using assms(1) i x by (rule adjusted_double)
  have dy: "roundDouble y = Num y" using assms(1,2,3) by simp
  obtain a where prev: "adjustedCoordinatesOf ps ! i = (a, Num x)"
    using x by (cases "adjustedCoordinatesOf ps ! i") simp
  obtain b where cur: "ps ! Suc i = (b, Num y)"
    using assms(3) by (cases "ps ! Suc i") simp
  have d: "num_gt (Num 540) (num_abs (num_sub (Num y) (Num x)))"
    using assms(5) unfolding assms(3) x .
  from step_closes_gap[OF dx dy assms(4) d, of a b] show ?thesis
    using assms(2) by (simp add: adjusted_nth_Suc prev cur)
qed

theorem consecutive_gap_bounded_witness:
  "Suc 0 < length [(Num 0, Num 179), (Num 0, Num (- 179))] \<and>
   num_abs (num_sub (snd ([(Num 0, Num 179), (Num 0, Num (- 179))] ! Suc 0))
              (snd (adjustedCoordinatesOf [(Num 0, Num 179), (Num 0, Num (- 179))] ! 0))) =
     Num 358 \<and>
   num_le (num_abs (num_sub
             (snd (adjustedCoordinatesOf [(Num 0, Num 179), (Num 0, Num (- 179))] ! Suc 0))
             (snd (adjustedCoordinatesOf [(Num 0, Num 179), (Num 0, Num (- 179))] ! 0))))
     (Num 180)"
proof -
  let ?ps = "[(Num 0, Num 179), (Num 0, Num (- 179))]"
  have h1: "\<forall>j<length ?ps. \<forall>v. snd (?ps ! j) = Num v \<longrightarrow> roundDouble v = Num v"
    by (auto simp: less_Suc_eq roundDouble_integer)
  have h2: "Suc 0 < length ?ps" by simp
  have h3: "snd (?ps ! Suc 0) = Num (- 179)" by simp
  have h4: "\<bar>- 179 :: real\<bar> \<le> 2 ^ 53" by simp
  have v: "num_abs (num_sub (snd (?ps ! Suc 0)) (snd (adjustedCoordinatesOf ?ps ! 0))) = Num 358"
    by (simp add: adjustedCoordinatesOf_def handleDateLineCrossing_def lastElement_def
        num_sub_def roundDouble_integer)
  have h5: "num_gt (Num 540)
              (num_abs (num_sub (snd (?ps ! Suc 0)) (snd (adjustedCoordinatesOf ?ps ! 0))))"
    unfolding v by simp
  from h2 v consecutive_gap_bounded [OF h1 h2 h3 h4 h5] show ?thesis by blast
qed




text \<open>
  C5. For every route whose longitudes all lie within \<open>[-180, 180]\<close> and in which no two
  consecutive points differ by more than 180 degrees in longitude, the adjusted route is
  the route itself.
\<close>

theorem adjustment_identity:
  assumes "\<forall>i<length ps. num_le (Num (-180)) (snd (ps ! i)) \<and> num_le (snd (ps ! i)) (Num 180)"
    and "\<forall>i. Suc i < length ps \<longrightarrow>
           num_le (num_abs (num_sub (snd (ps ! Suc i)) (snd (ps ! i)))) (Num 180)"
  shows "adjustedCoordinatesOf ps = ps"
  using assms(2) by (intro no_jump_fixed) (auto dest: num_le_not_gt)

theorem adjustment_identity_witness:
  "adjustedCoordinatesOf [(Num 1, Num 100), (Num 2, Num (-80))] =
   [(Num 1, Num 100), (Num 2, Num (-80))]"
proof -
  have h1: "\<forall>i<length [(Num 1, Num 100), (Num 2, Num (-80))].
              num_le (Num (-180)) (snd ([(Num 1, Num 100), (Num 2, Num (-80))] ! i)) \<and>
              num_le (snd ([(Num 1, Num 100), (Num 2, Num (-80))] ! i)) (Num 180)"
    by (simp add: All_less_Suc)
  have h2: "\<forall>i. Suc i < length [(Num 1, Num 100), (Num 2, Num (-80))] \<longrightarrow>
              num_le (num_abs (num_sub (snd ([(Num 1, Num 100), (Num 2, Num (-80))] ! Suc i))
                                       (snd ([(Num 1, Num 100), (Num 2, Num (-80))] ! i))))
                (Num 180)"
    by (simp add: num_sub_def roundDouble_integer)
  from adjustment_identity [OF h1 h2] show ?thesis .
qed

text \<open>
  C10, as stated, fails: the shift is a rounded sum. After a point at longitude 181, the
  point at longitude \<open>-2\<^sup>-\<^sup>6\<^sup>0\<close> is moved to longitude 360, which is its longitude plus
  \<open>k\<close> times 360 for no \<open>k\<close> among -1, 0 and 1.
\<close>

theorem adjustment_frame_counterexample:
  "adjustedCoordinatesOf [(Num 0, Num 181), (Num 0, Num (- (1 / 2 ^ 60)))] =
     [(Num 0, Num 181), (Num 0, Num 360)] \<and>
   (360 :: real) \<noteq> - (1 / 2 ^ 60) + (- 1) * 360 \<and>
   (360 :: real) \<noteq> - (1 / 2 ^ 60) + 0 * 360 \<and>
   (360 :: real) \<noteq> - (1 / 2 ^ 60) + 1 * 360"
proof -
  have s1: "roundDouble (- (208678792333839302657 / 1152921504606846976)) = Num (- 181)"
    using roundDouble_eval_fraction[of "- (208678792333839302657 / 1152921504606846976)" 45
        "- 181 * 2 ^ 45"]
    by simp
  have s2: "roundDouble (415051741658464911359 / 1152921504606846976) = Num 360"
    using roundDouble_eval_fraction[of "415051741658464911359 / 1152921504606846976" 44
        "360 * 2 ^ 44"]
    by simp
  show ?thesis
    by (simp add: adjustedCoordinatesOf_def handleDateLineCrossing_def lastElement_def
        num_sub_def s1 s2)
qed

text \<open>
  C10, amended. The adjusted sequence has the length of the input; the latitude at every
  index is the input latitude; the longitude is the input longitude, or the input
  longitude minus 360 or plus 360 as binary64 arithmetic rounds that sum. For a finite
  input longitude of magnitude at most \<open>2\<^sup>2\<^sup>0\<close> the adjusted longitude is therefore
  within \<open>2\<^sup>-\<^sup>3\<^sup>2\<close> of the input longitude plus \<open>k\<close> times 360 degrees for some \<open>k\<close>
  among -1, 0 and 1.
\<close>

theorem adjustment_frame:
  "length (adjustedCoordinatesOf ps) = length ps \<and>
   (\<forall>i<length ps.
      fst (adjustedCoordinatesOf ps ! i) = fst (ps ! i) \<and>
      (snd (adjustedCoordinatesOf ps ! i) = snd (ps ! i) \<or>
       snd (adjustedCoordinatesOf ps ! i) = num_sub (snd (ps ! i)) (Num 360) \<or>
       snd (adjustedCoordinatesOf ps ! i) = num_add (snd (ps ! i)) (Num 360)) \<and>
      (\<forall>y. snd (ps ! i) = Num y \<longrightarrow> \<bar>y\<bar> \<le> 2 ^ 20 \<longrightarrow>
         (\<exists>k\<in>{- 1, 0, 1}. \<exists>z. snd (adjustedCoordinatesOf ps ! i) = Num z \<and>
            \<bar>z - (y + real_of_int k * 360)\<bar> \<le> 1 / 2 ^ 32)))"
proof (intro conjI allI impI)
  show "length (adjustedCoordinatesOf ps) = length ps" by (rule length_adjusted)
next
  fix i assume i: "i < length ps"
  from adjusted_nth_step[OF i] obtain prev
    where eq: "adjustedCoordinatesOf ps ! i = handleDateLineCrossing prev (ps ! i)" ..
  show "fst (adjustedCoordinatesOf ps ! i) = fst (ps ! i)" by (simp add: eq step_fst)
  show "snd (adjustedCoordinatesOf ps ! i) = snd (ps ! i) \<or>
       snd (adjustedCoordinatesOf ps ! i) = num_sub (snd (ps ! i)) (Num 360) \<or>
       snd (adjustedCoordinatesOf ps ! i) = num_add (snd (ps ! i)) (Num 360)"
    unfolding eq by (rule step_snd)
  fix y assume "snd (ps ! i) = Num y" and "\<bar>y\<bar> \<le> 2 ^ 20"
  then show "\<exists>k\<in>{- 1, 0, 1}. \<exists>z. snd (adjustedCoordinatesOf ps ! i) = Num z \<and>
            \<bar>z - (y + real_of_int k * 360)\<bar> \<le> 1 / 2 ^ 32"
    unfolding eq by (rule step_shift_near)
qed

theorem adjustment_frame_witness:
  "length (adjustedCoordinatesOf [(Num 0, Num 179), (Num 0, Num (- 179))]) = 2 \<and>
   fst (adjustedCoordinatesOf [(Num 0, Num 179), (Num 0, Num (- 179))] ! 1) = Num 0 \<and>
   (\<exists>k\<in>{- 1, 0, 1}. \<exists>z.
      snd (adjustedCoordinatesOf [(Num 0, Num 179), (Num 0, Num (- 179))] ! 1) = Num z \<and>
      \<bar>z - (- 179 + real_of_int k * 360)\<bar> \<le> 1 / 2 ^ 32)"
  using adjustment_frame [of "[(Num 0, Num 179), (Num 0, Num (- 179))]"]
  by (simp add: All_less_Suc)

section \<open>The centre of the route\<close>

lemma roundDouble_near31:
  assumes "\<bar>x\<bar> < 2 ^ 31"
  shows "\<exists>r. roundDouble x = Num r \<and> \<bar>r - x\<bar> \<le> 1 / 2 ^ 23"
proof -
  have "\<bar>x\<bar> < 2 powi (- 22 + 53)"
    using assms by (simp add: power_int_def)
  from roundDouble_error[OF this]
  obtain r where "roundDouble x = Num r" "\<bar>r - x\<bar> \<le> 2 powi (- 22 - 1)" by auto
  then show ?thesis by (auto simp: power_int_def field_simps)
qed

lemma foldl_fst_map:
  "foldl (\<lambda>sum coord. num_add sum (fst coord)) acc (map (\<lambda>p. (Num (fst p), Num (snd p))) ps) =
   foldl (\<lambda>sum v. num_add sum (Num v)) acc (map fst ps)"
  by (induction ps arbitrary: acc) simp_all

lemma foldl_snd_map:
  "foldl (\<lambda>sum coord. num_add sum (snd coord)) acc (map (\<lambda>p. (Num (fst p), Num (snd p))) ps) =
   foldl (\<lambda>sum v. num_add sum (Num v)) acc (map snd ps)"
  by (induction ps arbitrary: acc) simp_all

text \<open>
  The sum of the reduce: each addition is off by at most \<open>2\<^sup>-\<^sup>2\<^sup>3\<close> as long as the partial
  sums stay below \<open>2\<^sup>3\<^sup>1\<close>.
\<close>

lemma foldl_num_add_near:
  assumes "\<forall>v\<in>set vs. \<bar>v\<bar> \<le> 1024" and "\<bar>a\<bar> + 1025 * real (length vs) \<le> 2 ^ 31"
  shows "\<exists>r. foldl (\<lambda>sum v. num_add sum (Num v)) (Num a) vs = Num r \<and>
           \<bar>r - (a + sum_list vs)\<bar> \<le> real (length vs) / 2 ^ 23 \<and>
           \<bar>r\<bar> \<le> \<bar>a\<bar> + 1025 * real (length vs)"
  using assms
proof (induction vs arbitrary: a)
  case Nil
  then show ?case by simp
next
  case (Cons v vs)
  have v: "\<bar>v\<bar> \<le> 1024" using Cons.prems(1) by simp
  have bound: "\<bar>a\<bar> + 1025 + 1025 * real (length vs) \<le> 2147483648"
    using Cons.prems(2) by (simp add: algebra_simps)
  have len: "0 \<le> real (length vs)" by simp
  have "\<bar>a + v\<bar> < 2147483648" using v bound len by linarith
  then have "\<bar>a + v\<bar> < 2 ^ 31" by simp
  from roundDouble_near31[OF this] obtain s
    where s: "roundDouble (a + v) = Num s" and "\<bar>s - (a + v)\<bar> \<le> 1 / 2 ^ 23" by blast
  then have se: "\<bar>s - (a + v)\<bar> \<le> 1 / 8388608" by simp
  have sb: "\<bar>s\<bar> \<le> \<bar>a\<bar> + 1025" using se v by linarith
  have "\<bar>s\<bar> + 1025 * real (length vs) \<le> 2 ^ 31" using sb bound by simp
  from Cons.IH[OF _ this] Cons.prems(1) obtain r
    where r: "foldl (\<lambda>sum v. num_add sum (Num v)) (Num s) vs = Num r"
      and "\<bar>r - (s + sum_list vs)\<bar> \<le> real (length vs) / 2 ^ 23"
      and rb: "\<bar>r\<bar> \<le> \<bar>s\<bar> + 1025 * real (length vs)"
    by auto
  then have re: "\<bar>r - (s + sum_list vs)\<bar> \<le> real (length vs) / 8388608" by simp
  have "\<bar>r - (a + (v + sum_list vs))\<bar> \<le> \<bar>r - (s + sum_list vs)\<bar> + \<bar>s - (a + v)\<bar>"
    by linarith
  also have "\<dots> \<le> real (length vs) / 8388608 + 1 / 8388608"
    using re se by (rule add_mono)
  also have "\<dots> = (1 + real (length vs)) / 8388608"
    by (simp add: add_divide_distrib)
  finally have "\<bar>r - (a + (v + sum_list vs))\<bar> \<le> (1 + real (length vs)) / 8388608" .
  moreover have "\<bar>r\<bar> \<le> \<bar>a\<bar> + 1025 * (1 + real (length vs))"
    using rb sb by (simp add: algebra_simps)
  ultimately show ?case
    by (simp add: s r)
qed

lemma mean_near:
  assumes "vs \<noteq> []" and "length vs \<le> 2 ^ 20" and "\<forall>v\<in>set vs. \<bar>v\<bar> \<le> 1024"
  shows "\<exists>m. num_div_count (foldl (\<lambda>sum v. num_add sum (Num v)) (Num 0) vs) (length vs) = Num m \<and>
           \<bar>m - sum_list vs / real (length vs)\<bar> \<le> 1 / 2 ^ 22"
proof -
  define n where "n = real (length vs)"
  have n1: "1 \<le> n" using assms(1) unfolding n_def by (cases vs) simp_all
  have "real (length vs) \<le> real (2 ^ 20)" using assms(2) by (simp only: of_nat_le_iff)
  then have n2: "n \<le> 1048576" unfolding n_def by simp
  have "\<bar>0::real\<bar> + 1025 * real (length vs) \<le> 2 ^ 31"
    using n2 unfolding n_def by simp
  from foldl_num_add_near[OF assms(3) this] obtain r
    where r: "foldl (\<lambda>sum v. num_add sum (Num v)) (Num 0) vs = Num r"
      and "\<bar>r - (0 + sum_list vs)\<bar> \<le> real (length vs) / 2 ^ 23"
      and "\<bar>r\<bar> \<le> \<bar>0\<bar> + 1025 * real (length vs)"
    by blast
  then have re: "\<bar>r - sum_list vs\<bar> \<le> n / 8388608" and rb: "\<bar>r\<bar> \<le> 1025 * n"
    unfolding n_def by simp_all
  have npos: "0 < n" using n1 by simp
  have "\<bar>r / n\<bar> = \<bar>r\<bar> / n" using npos by simp
  also have "\<dots> \<le> 1025 * n / n" using rb npos by (intro divide_right_mono) simp_all
  also have "\<dots> = 1025" using npos by simp
  finally have "\<bar>r / n\<bar> < 2 ^ 31" by simp
  from roundDouble_near31[OF this] obtain m
    where m: "roundDouble (r / n) = Num m" and "\<bar>m - r / n\<bar> \<le> 1 / 2 ^ 23" by blast
  then have me: "\<bar>m - r / n\<bar> \<le> 1 / 8388608" by simp
  have "\<bar>r / n - sum_list vs / n\<bar> = \<bar>r - sum_list vs\<bar> / n"
    using npos by (simp add: diff_divide_distrib[symmetric])
  also have "\<dots> \<le> (n / 8388608) / n" using re npos by (intro divide_right_mono) simp_all
  also have "\<dots> = 1 / 8388608" using npos by simp
  finally have "\<bar>r / n - sum_list vs / n\<bar> \<le> 1 / 8388608" .
  with me have "\<bar>m - sum_list vs / n\<bar> \<le> 1 / 4194304" by linarith
  then have "\<bar>m - sum_list vs / real (length vs)\<bar> \<le> 1 / 2 ^ 22"
    unfolding n_def by simp
  moreover have "num_div_count (Num r) (length vs) = Num m"
    using assms(1) m unfolding n_def by simp
  ultimately show ?thesis unfolding r by blast
qed

text \<open>
  C6, as stated, fails: the centroid is computed in binary64 arithmetic. The mean
  latitude of \<open>[(1, 0), (0, 0), (0, 0)]\<close> is returned as the binary64 value nearest to
  one third, and the mean of two latitudes \<open>2\<^sup>1\<^sup>0\<^sup>2\<^sup>3\<close> as infinity, their sum being out
  of range.
\<close>

theorem centroid_counterexample:
  "calculateMeanLatLon [(Num 1, Num 0), (Num 0, Num 0), (Num 0, Num 0)] =
     (Num (6004799503160661 / 18014398509481984), Num 0) \<and>
   (6004799503160661 / 18014398509481984 :: real) \<noteq> (1 + 0 + 0) / 3 \<and>
   calculateMeanLatLon [(Num (2 ^ 1023), Num 0), (Num (2 ^ 1023), Num 0)] =
     (PosInfinity, Num 0)"
proof -
  have third: "roundDouble (1 / 3) = Num (6004799503160661 / 18014398509481984)"
    using roundDouble_eval_fraction[of "1 / 3" 54 "6004799503160661"] by simp
  have big: "roundDouble (2 ^ 1023) = Num (2 ^ 1023)"
    using roundDouble_exact[of "2 ^ 1023" "2 ^ 52" 971] by (simp add: power_int_def)
  have over: "roundDouble (2 ^ 1023 + 2 ^ 1023) = PosInfinity"
    by (rule roundDouble_overflow) simp
  have a: "calculateMeanLatLon [(Num 1, Num 0), (Num 0, Num 0), (Num 0, Num 0)] =
     (Num (6004799503160661 / 18014398509481984), Num 0)"
    by (simp add: calculateMeanLatLon_def Let_def roundDouble_integer third)
  have b: "calculateMeanLatLon [(Num (2 ^ 1023), Num 0), (Num (2 ^ 1023), Num 0)] =
     (PosInfinity, Num 0)"
    unfolding calculateMeanLatLon_def Let_def
    by (simp only: foldl.simps fst_conv snd_conv num_add.simps add_0 big over
        num_div_count.simps list.size) (simp add: roundDouble_integer)
  from a b show ?thesis by simp
qed

text \<open>
  C6, amended. For every non-empty sequence of at most \<open>2\<^sup>2\<^sup>0\<close> points with finite
  coordinates of magnitude at most 1024, the centroid is finite, its latitude is within
  \<open>2\<^sup>-\<^sup>2\<^sup>2\<close> of the arithmetic mean of the latitudes and its longitude within \<open>2\<^sup>-\<^sup>2\<^sup>2\<close> of
  the arithmetic mean of the longitudes, each taken on its own and unweighted; the
  centroid of \<open>[(0, 0), (0, 10), (10, 0), (10, 10)]\<close> is \<open>(5, 5)\<close>.
\<close>

theorem centroid_is_mean:
  "(ps \<noteq> [] \<and> length ps \<le> 2 ^ 20 \<and> (\<forall>p\<in>set ps. \<bar>fst p\<bar> \<le> 1024 \<and> \<bar>snd p\<bar> \<le> 1024) \<longrightarrow>
      (\<exists>lat lon.
         calculateMeanLatLon (map (\<lambda>p. (Num (fst p), Num (snd p))) ps) = (Num lat, Num lon) \<and>
         \<bar>lat - sum_list (map fst ps) / real (length ps)\<bar> \<le> 1 / 2 ^ 22 \<and>
         \<bar>lon - sum_list (map snd ps) / real (length ps)\<bar> \<le> 1 / 2 ^ 22)) \<and>
   calculateMeanLatLon [(Num 0, Num 0), (Num 0, Num 10), (Num 10, Num 0), (Num 10, Num 10)] =
     (Num 5, Num 5)"
proof (intro conjI impI)
  assume h: "ps \<noteq> [] \<and> length ps \<le> 2 ^ 20 \<and> (\<forall>p\<in>set ps. \<bar>fst p\<bar> \<le> 1024 \<and> \<bar>snd p\<bar> \<le> 1024)"
  then have ne: "map fst ps \<noteq> []" "map snd ps \<noteq> []"
    and len: "length (map fst ps) \<le> 2 ^ 20" "length (map snd ps) \<le> 2 ^ 20"
    and lat: "\<forall>v\<in>set (map fst ps). \<bar>v\<bar> \<le> 1024"
    and lon: "\<forall>v\<in>set (map snd ps). \<bar>v\<bar> \<le> 1024"
    by auto
  from mean_near[OF ne(1) len(1) lat] obtain mlat
    where 1: "num_div_count (foldl (\<lambda>sum v. num_add sum (Num v)) (Num 0) (map fst ps))
                (length ps) = Num mlat"
      and 2: "\<bar>mlat - sum_list (map fst ps) / real (length ps)\<bar> \<le> 1 / 2 ^ 22"
    by auto
  from mean_near[OF ne(2) len(2) lon] obtain mlon
    where 3: "num_div_count (foldl (\<lambda>sum v. num_add sum (Num v)) (Num 0) (map snd ps))
                (length ps) = Num mlon"
      and 4: "\<bar>mlon - sum_list (map snd ps) / real (length ps)\<bar> \<le> 1 / 2 ^ 22"
    by auto
  have "calculateMeanLatLon (map (\<lambda>p. (Num (fst p), Num (snd p))) ps) = (Num mlat, Num mlon)"
    unfolding calculateMeanLatLon_def Let_def foldl_fst_map foldl_snd_map
    by (simp add: 1 3)
  with 2 4 show "\<exists>lat lon.
         calculateMeanLatLon (map (\<lambda>p. (Num (fst p), Num (snd p))) ps) = (Num lat, Num lon) \<and>
         \<bar>lat - sum_list (map fst ps) / real (length ps)\<bar> \<le> 1 / 2 ^ 22 \<and>
         \<bar>lon - sum_list (map snd ps) / real (length ps)\<bar> \<le> 1 / 2 ^ 22"
    by blast
next
  show "calculateMeanLatLon [(Num 0, Num 0), (Num 0, Num 10), (Num 10, Num 0), (Num 10, Num 10)] =
     (Num 5, Num 5)"
    by (simp add: calculateMeanLatLon_def Let_def roundDouble_integer)
qed

theorem centroid_is_mean_witness:
  "[(1, 2), (3, 6 :: real)] \<noteq> [] \<and> length [(1, 2), (3, 6 :: real)] \<le> 2 ^ 20 \<and>
   (\<exists>lat lon. calculateMeanLatLon [(Num 1, Num 2), (Num 3, Num 6)] = (Num lat, Num lon) \<and>
      \<bar>lat - 2\<bar> \<le> 1 / 2 ^ 22 \<and> \<bar>lon - 4\<bar> \<le> 1 / 2 ^ 22)"
  using centroid_is_mean [of "[(1, 2), (3, 6)]"] by simp

section \<open>The route effect on input that does not parse\<close>

lemma foldl_forEachPoint:
  "snd (foldl (forEachPoint parse) (rawCoords, adjusted) routePoints) =
   foldl (\<lambda>acc current. acc @ [handleDateLineCrossing (lastElement acc) current]) adjusted
     (map (\<lambda>point. (parse (latitude point), parse (longitude point))) routePoints)"
  by (induction routePoints arbitrary: rawCoords adjusted) (simp_all add: forEachPoint_def Let_def)

lemma routeEffect_adjusted:
  "routePoints \<noteq> [] \<Longrightarrow>
   routeEffect parse (Some routePoints) st =
     st\<lparr>adjustedCoordinates :=
          adjustedCoordinatesOf
            (map (\<lambda>point. (parse (latitude point), parse (longitude point))) routePoints),
        center :=
          Some (calculateMeanLatLon
            (adjustedCoordinatesOf
              (map (\<lambda>point. (parse (latitude point), parse (longitude point))) routePoints)))\<rparr>"
  by (simp add: routeEffect_def foldl_forEachPoint adjustedCoordinatesOf_def Let_def)

lemma foldl_num_add_NaN: "foldl (\<lambda>sum coord. num_add sum (f coord)) NaN cs = NaN"
  by (induction cs) simp_all

lemma foldl_num_add_has_NaN:
  "c \<in> set cs \<Longrightarrow> f c = NaN \<Longrightarrow> foldl (\<lambda>sum coord. num_add sum (f coord)) a cs = NaN"
proof (induction cs arbitrary: a)
  case Nil
  then show ?case by simp
next
  case (Cons x xs)
  show ?case
  proof (cases "c = x")
    case True
    then have "num_add a (f x) = NaN" using Cons.prems(2) by (cases a) simp_all
    then show ?thesis by (simp add: foldl_num_add_NaN)
  next
    case False
    then show ?thesis using Cons by simp
  qed
qed

lemma parseFloat_simps:
  "parseFloat (fromAscii ''abc'') = NaN"
  "parseFloat (fromAscii ''0,5'') = Num 0"
  "parseFloat (fromAscii ''20'') = Num 20"
  by (simp_all add: parseFloat_def fromAscii_def isStrWhiteSpaceChar_def
      strUnsignedDecimalLiteral_def isDecimalDigit_def decimalDigitsValue_def digitValue_def
      exponentPart_def scaleByExponent_def roundDouble_integer)

text \<open>
  C7, as stated, fails. A latitude that is no number raises nothing: the effect stores
  the point with a NaN latitude and a centre with a NaN latitude, and the view logs a
  warning. A latitude written with a decimal comma is silently taken for its numeric
  prefix, which is zero here, and the map is moved there.
\<close>

theorem parse_failure_counterexample:
  "routeEffect parseFloat
     (Some [\<lparr>latitude = fromAscii ''abc'', longitude = fromAscii ''20''\<rparr>]) initialState =
   \<lparr>adjustedCoordinates = [(NaN, Num 20)], center = Some (NaN, Num 20),
     intersectionPoint = None, forecastConeData = None, observedTrackData = None\<rparr> \<and>
   renderedView (routeEffect parseFloat
     (Some [\<lparr>latitude = fromAscii ''abc'', longitude = fromAscii ''20''\<rparr>]) initialState) =
   Some WarnInvalidCenter \<and>
   routeEffect parseFloat
     (Some [\<lparr>latitude = fromAscii ''0,5'', longitude = fromAscii ''20''\<rparr>]) initialState =
   \<lparr>adjustedCoordinates = [(Num 0, Num 20)], center = Some (Num 0, Num 20),
     intersectionPoint = None, forecastConeData = None, observedTrackData = None\<rparr> \<and>
   renderedView (routeEffect parseFloat
     (Some [\<lparr>latitude = fromAscii ''0,5'', longitude = fromAscii ''20''\<rparr>]) initialState) =
   Some (SetView (Num 0, Num 20) 3)"
  by (simp add: routeEffect_def forEachPoint_def handleDateLineCrossing_def lastElement_def
      calculateMeanLatLon_def Let_def initialState_def renderedView_def
      setViewOnRouteData_def isNaN_def parseFloat_simps roundDouble_integer)

text \<open>
  C7, amended. For every route input, whatever its latitude and longitude strings are,
  the route effect raises no error. It stores one adjusted point for each input point:
  the latitude is what the parser returns for the latitude string, and the longitude is
  what the parser returns for the longitude string, as it is or with 360 subtracted or
  added. A string that the parser turns into NaN is thus carried on as NaN, into the
  adjusted point and into the stored centre, for which the view, when no intersection
  point is set, logs a warning and leaves the map where it is.
\<close>

theorem route_effect_keeps_parser_values:
  assumes "i < length routePoints"
  shows "length (adjustedCoordinates (routeEffect parse (Some routePoints) st)) =
           length routePoints \<and>
    fst (adjustedCoordinates (routeEffect parse (Some routePoints) st) ! i) =
      parse (latitude (routePoints ! i)) \<and>
    (snd (adjustedCoordinates (routeEffect parse (Some routePoints) st) ! i) =
       parse (longitude (routePoints ! i)) \<or>
     snd (adjustedCoordinates (routeEffect parse (Some routePoints) st) ! i) =
       num_sub (parse (longitude (routePoints ! i))) (Num 360) \<or>
     snd (adjustedCoordinates (routeEffect parse (Some routePoints) st) ! i) =
       num_add (parse (longitude (routePoints ! i))) (Num 360)) \<and>
    (parse (latitude (routePoints ! i)) = NaN \<longrightarrow>
       (\<exists>lon. center (routeEffect parse (Some routePoints) st) = Some (NaN, lon)) \<and>
       (intersectionPoint st = None \<longrightarrow>
          renderedView (routeEffect parse (Some routePoints) st) = Some WarnInvalidCenter)) \<and>
    (parse (longitude (routePoints ! i)) = NaN \<longrightarrow>
       snd (adjustedCoordinates (routeEffect parse (Some routePoints) st) ! i) = NaN \<and>
       (\<exists>lat. center (routeEffect parse (Some routePoints) st) = Some (lat, NaN)) \<and>
       (intersectionPoint st = None \<longrightarrow>
          renderedView (routeEffect parse (Some routePoints) st) = Some WarnInvalidCenter))"
proof -
  let ?raw = "map (\<lambda>point. (parse (latitude point), parse (longitude point))) routePoints"
  let ?adj = "adjustedCoordinatesOf ?raw"
  let ?st = "routeEffect parse (Some routePoints) st"
  from assms have ne: "routePoints \<noteq> []" by auto
  have i: "i < length ?raw" using assms by simp
  have adj: "adjustedCoordinates ?st = ?adj"
    by (simp add: routeEffect_adjusted[OF ne])
  have cen: "center ?st = Some (calculateMeanLatLon ?adj)"
    by (simp add: routeEffect_adjusted[OF ne])
  have ip: "intersectionPoint ?st = intersectionPoint st"
    by (simp add: routeEffect_adjusted[OF ne])
  from adjusted_nth_step[OF i] obtain prev
    where nth: "?adj ! i = handleDateLineCrossing prev (?raw ! i)" ..
  have raw: "?raw ! i = (parse (latitude (routePoints ! i)), parse (longitude (routePoints ! i)))"
    using assms by simp
  have mem: "?adj ! i \<in> set ?adj" using i by (simp add: length_adjusted)
  have len: "length ?adj = length routePoints" by (simp add: length_adjusted)
  have f: "fst (?adj ! i) = parse (latitude (routePoints ! i))"
    by (simp add: nth step_fst raw)
  have s: "snd (?adj ! i) = parse (longitude (routePoints ! i)) \<or>
           snd (?adj ! i) = num_sub (parse (longitude (routePoints ! i))) (Num 360) \<or>
           snd (?adj ! i) = num_add (parse (longitude (routePoints ! i))) (Num 360)"
    using step_snd[of prev "?raw ! i"] unfolding nth raw by simp
  have lat: "(\<exists>lon. Some (calculateMeanLatLon ?adj) = Some (NaN, lon)) \<and>
             (intersectionPoint st = None \<longrightarrow> renderedView ?st = Some WarnInvalidCenter)"
    if "parse (latitude (routePoints ! i)) = NaN"
  proof -
    have "fst (?adj ! i) = NaN" using that f by simp
    with mem have "foldl (\<lambda>sum coord. num_add sum (fst coord)) (Num 0) ?adj = NaN"
      by (rule foldl_num_add_has_NaN)
    then have c: "fst (calculateMeanLatLon ?adj) = NaN"
      by (simp add: calculateMeanLatLon_def Let_def)
    then have "\<exists>lon. Some (calculateMeanLatLon ?adj) = Some (NaN, lon)"
      by (cases "calculateMeanLatLon ?adj") simp
    moreover have "renderedView ?st = Some WarnInvalidCenter" if "intersectionPoint st = None"
      using that c by (simp add: renderedView_def ip cen setViewOnRouteData_def isNaN_def)
    ultimately show ?thesis by blast
  qed
  have lon: "snd (?adj ! i) = NaN \<and>
             (\<exists>lat. Some (calculateMeanLatLon ?adj) = Some (lat, NaN)) \<and>
             (intersectionPoint st = None \<longrightarrow> renderedView ?st = Some WarnInvalidCenter)"
    if "parse (longitude (routePoints ! i)) = NaN"
  proof -
    have n: "snd (?adj ! i) = NaN" using that by (simp add: nth step_snd_NaN raw)
    with mem have "foldl (\<lambda>sum coord. num_add sum (snd coord)) (Num 0) ?adj = NaN"
      by (rule foldl_num_add_has_NaN)
    then have c: "snd (calculateMeanLatLon ?adj) = NaN"
      by (simp add: calculateMeanLatLon_def Let_def)
    then have "\<exists>lat. Some (calculateMeanLatLon ?adj) = Some (lat, NaN)"
      by (cases "calculateMeanLatLon ?adj") simp
    moreover have "renderedView ?st = Some WarnInvalidCenter" if "intersectionPoint st = None"
      using that c by (simp add: renderedView_def ip cen setViewOnRouteData_def isNaN_def)
    ultimately show ?thesis using n by blast
  qed
  show ?thesis unfolding adj cen using len f s lat lon by blast
qed

theorem route_effect_keeps_parser_values_witness:
  "(0::nat) < length [\<lparr>latitude = fromAscii ''abc'', longitude = fromAscii ''20''\<rparr>] \<and>
   parseFloat (latitude ([\<lparr>latitude = fromAscii ''abc'', longitude = fromAscii ''20''\<rparr>] ! 0)) =
     NaN \<and>
   intersectionPoint initialState = None \<and>
   fst (adjustedCoordinates
          (routeEffect parseFloat
             (Some [\<lparr>latitude = fromAscii ''abc'', longitude = fromAscii ''20''\<rparr>])
             initialState) ! 0) = NaN \<and>
   renderedView
     (routeEffect parseFloat
        (Some [\<lparr>latitude = fromAscii ''abc'', longitude = fromAscii ''20''\<rparr>])
        initialState) = Some WarnInvalidCenter"
proof -
  let ?ps = "[\<lparr>latitude = fromAscii ''abc'', longitude = fromAscii ''20''\<rparr>]"
  have h: "(0::nat) < length ?ps"
    by simp
  have n: "parseFloat (latitude (?ps ! 0)) = NaN"
    by (simp add: parseFloat_simps)
  have p: "intersectionPoint initialState = None"
    by (simp add: initialState_def)
  show ?thesis
    using h n p route_effect_keeps_parser_values [OF h, of parseFloat initialState]
    by simp
qed

section \<open>The order of the scan\<close>













section \<open>The axis order handed to the checks\<close>



end
